theory Spec2Isabelle
  imports Complex_Main "HOL-Library.Word"
begin

section \<open>Go values used by the query engine\<close>

text \<open>
  Go strings are byte sequences: \<open>string\<close> (a \<open>char list\<close>) with one \<open>char\<close> per byte.
  The two bytes the code singles out most often are the double quote (0x22) and the
  backslash (0x5C).
\<close>

abbreviation dquote :: char where "dquote \<equiv> CHR 0x22"
abbreviation backslash :: char where "backslash \<equiv> CHR 0x5C"

text \<open>
  A \<open>float64\<close> is NaN, an infinity with its sign, or a finite value
  \<open>(-1)^sign * mantissa * 2^exponent\<close>. \<open>is_binary64\<close> says that the triple fits the
  53-bit significand and the exponent range of IEEE 754 binary64.
\<close>

datatype float64 = FNaN | FInf bool | FFin bool int int

fun is_binary64 :: "float64 \<Rightarrow> bool" where
  "is_binary64 (FFin sg m e) = (0 \<le> m \<and> m < 2 ^ 53 \<and> - 1074 \<le> e \<and> e \<le> 971)"
| "is_binary64 _ = True"

definition signed_mant :: "bool \<Rightarrow> int \<Rightarrow> int" where
  "signed_mant sg m = (if sg then - m else m)"

text \<open>The real number a finite \<open>float64\<close> stands for.\<close>

fun f64_val :: "float64 \<Rightarrow> real option" where
  "f64_val (FFin sg m e) = Some (of_int (signed_mant sg m) * 2 powi e)"
| "f64_val _ = None"

text \<open>
  Go's comparison operators on \<open>float64\<close> (IEEE 754): every ordered comparison with a
  NaN is false, \<open>-0 == +0\<close>, and two finite values are compared after scaling both to
  the smaller exponent.
\<close>

fun f64_eq :: "float64 \<Rightarrow> float64 \<Rightarrow> bool" where
  "f64_eq (FFin s1 m1 e1) (FFin s2 m2 e2) =
     (signed_mant s1 m1 * 2 ^ nat (e1 - min e1 e2) = signed_mant s2 m2 * 2 ^ nat (e2 - min e1 e2))"
| "f64_eq (FInf s1) (FInf s2) = (s1 = s2)"
| "f64_eq _ _ = False"

fun f64_lt :: "float64 \<Rightarrow> float64 \<Rightarrow> bool" where
  "f64_lt (FFin s1 m1 e1) (FFin s2 m2 e2) =
     (signed_mant s1 m1 * 2 ^ nat (e1 - min e1 e2) < signed_mant s2 m2 * 2 ^ nat (e2 - min e1 e2))"
| "f64_lt (FInf s1) (FInf s2) = (s1 \<and> \<not> s2)"
| "f64_lt (FInf s1) (FFin s2 m2 e2) = s1"
| "f64_lt (FFin s1 m1 e1) (FInf s2) = (\<not> s2)"
| "f64_lt _ _ = False"

definition f64_ne :: "float64 \<Rightarrow> float64 \<Rightarrow> bool" where
  "f64_ne x y = (\<not> f64_eq x y)"

definition f64_gt :: "float64 \<Rightarrow> float64 \<Rightarrow> bool" where
  "f64_gt x y = f64_lt y x"

definition f64_le :: "float64 \<Rightarrow> float64 \<Rightarrow> bool" where
  "f64_le x y = (f64_lt x y \<or> f64_eq x y)"

definition f64_ge :: "float64 \<Rightarrow> float64 \<Rightarrow> bool" where
  "f64_ge x y = f64_le y x"

text \<open>
  The conversion \<open>float64(v)\<close> of an \<open>int64\<close>: exact below \<open>2^53\<close>, otherwise rounded
  to 53 significant bits, ties to even.
\<close>

function bit_length :: "int \<Rightarrow> nat" where
  "bit_length n = (if n \<le> 0 then 0 else Suc (bit_length (n div 2)))"
  by pat_completeness auto
termination
  by (relation "measure nat") auto

declare bit_length.simps [simp del]

definition round_to_binary64 :: "bool \<Rightarrow> int \<Rightarrow> float64" where
  "round_to_binary64 sg a =
     (if bit_length a \<le> 53 then FFin sg a 0
      else
        let k = bit_length a - 53;
            q = a div 2 ^ k;
            r = a mod 2 ^ k;
            h = 2 ^ (k - 1);
            q' = (if h < r \<or> (r = h \<and> odd q) then q + 1 else q)
        in if q' = 2 ^ 53 then FFin sg (2 ^ 52) (int k + 1) else FFin sg q' (int k))"

definition int64_to_float64 :: "64 word \<Rightarrow> float64" where
  "int64_to_float64 v = round_to_binary64 (sint v < 0) \<bar>sint v\<bar>"

text \<open>
  The dynamic values of \<open>interface{}\<close> that the filter engine and the projection handle:
  \<open>nil\<close>, \<open>bool\<close>, \<open>int64\<close>, \<open>float64\<close>, \<open>string\<close>, \<open>[]interface{}\<close> and
  \<open>map[string]interface{}\<close> (an association list with unique keys).
\<close>

datatype iface =
    INil
  | IBool bool
  | IInt64 "64 word"
  | IFloat64 float64
  | IString string
  | IList "iface list"
  | IMap "(string \<times> iface) list"

section \<open>The parts of Go's standard library the code calls\<close>

text \<open>
  Byte-wise string comparison (\<open>a < b\<close> on Go strings), \<open>strings.HasPrefix\<close>,
  \<open>strings.Contains\<close>, \<open>strings.IndexByte\<close>, \<open>strings.TrimLeft\<close> and
  \<open>strings.TrimRight\<close> with the double quote as cutset, and \<open>strings.Replace\<close> deleting every double quote.
\<close>

fun string_less :: "string \<Rightarrow> string \<Rightarrow> bool" where
  "string_less [] [] = False"
| "string_less [] (y # ys) = True"
| "string_less (x # xs) [] = False"
| "string_less (x # xs) (y # ys) =
     (if (of_char x :: nat) < of_char y then True
      else if (of_char y :: nat) < of_char x then False
      else string_less xs ys)"

fun HasPrefix :: "string \<Rightarrow> string \<Rightarrow> bool" where
  "HasPrefix s [] = True"
| "HasPrefix [] (p # ps) = False"
| "HasPrefix (c # cs) (p # ps) = (c = p \<and> HasPrefix cs ps)"

fun Contains :: "string \<Rightarrow> string \<Rightarrow> bool" where
  "Contains [] sub = (sub = [])"
| "Contains (c # cs) sub = (HasPrefix (c # cs) sub \<or> Contains cs sub)"

fun IndexByte :: "string \<Rightarrow> char \<Rightarrow> nat option" where
  "IndexByte [] b = None"
| "IndexByte (c # cs) b =
     (if c = b then Some 0 else (case IndexByte cs b of None \<Rightarrow> None | Some i \<Rightarrow> Some (Suc i)))"

definition TrimLeft_quote :: "string \<Rightarrow> string" where
  "TrimLeft_quote b = dropWhile (\<lambda>c. c = dquote) b"

definition TrimRight_quote :: "string \<Rightarrow> string" where
  "TrimRight_quote b = rev (dropWhile (\<lambda>c. c = dquote) (rev b))"

definition Replace_quote :: "string \<Rightarrow> string" where
  "Replace_quote v = filter (\<lambda>c. c \<noteq> dquote) v"

text \<open>
  \<open>strconv.Atoi\<close> for a 64-bit \<open>int\<close>: an optional sign, then one or more decimal
  digits and nothing else; a value outside the \<open>int\<close> range is an error as well.
\<close>

definition is_digit :: "char \<Rightarrow> bool" where
  "is_digit c = ((48::nat) \<le> of_char c \<and> (of_char c :: nat) \<le> 57)"

definition digits_val :: "string \<Rightarrow> int" where
  "digits_val ds = foldl (\<lambda>acc c. 10 * acc + (int (of_char c) - 48)) 0 ds"

definition split_sign :: "string \<Rightarrow> bool \<times> string" where
  "split_sign s =
     (case s of
        [] \<Rightarrow> (False, [])
      | c # cs \<Rightarrow> if c = CHR ''-'' then (True, cs) else if c = CHR ''+'' then (False, cs)
                  else (False, s))"

definition Atoi :: "string \<Rightarrow> int option" where
  "Atoi s =
     (case split_sign s of (neg, ds) \<Rightarrow>
        if ds = [] \<or> \<not> list_all is_digit ds then None
        else
          let r = (if neg then - digits_val ds else digits_val ds)
          in if - (2 ^ 63) \<le> r \<and> r < 2 ^ 63 then Some r else None)"

text \<open>
  \<open>strconv.ParseUint(xs, 16, 16)\<close>: every byte a hexadecimal digit (no sign, no prefix,
  no separator), and the value below \<open>2^16\<close>.
\<close>

definition hex_digit :: "char \<Rightarrow> nat option" where
  "hex_digit c =
     (let k = (of_char c :: nat)
      in if 48 \<le> k \<and> k \<le> 57 then Some (k - 48)
         else if 97 \<le> k \<and> k \<le> 102 then Some (k - 87)
         else if 65 \<le> k \<and> k \<le> 70 then Some (k - 55)
         else None)"

fun hex_value :: "nat \<Rightarrow> string \<Rightarrow> nat option" where
  "hex_value acc [] = Some acc"
| "hex_value acc (c # cs) =
     (case hex_digit c of None \<Rightarrow> None | Some d \<Rightarrow> hex_value (16 * acc + d) cs)"

definition ParseUint_16_16 :: "string \<Rightarrow> nat option" where
  "ParseUint_16_16 xs =
     (if xs = [] then None
      else case hex_value 0 xs of
             None \<Rightarrow> None
           | Some x \<Rightarrow> if x < 2 ^ 16 then Some x else None)"

text \<open>
  The conversion \<open>string(rune(x))\<close> for \<open>x < 2^16\<close>: the UTF-8 encoding of the code
  point \<open>x\<close>, and the encoding of U+FFFD when \<open>x\<close> is a surrogate (D800 to DFFF).
\<close>

definition string_of_rune :: "nat \<Rightarrow> string" where
  "string_of_rune x =
     (if x < 0x80 then [char_of x]
      else if x < 0x800 then [char_of (0xC0 + x div 64), char_of (0x80 + x mod 64)]
      else if 0xD800 \<le> x \<and> x \<le> 0xDFFF then [CHR 0xEF, CHR 0xBF, CHR 0xBD]
      else [char_of (0xE0 + x div 4096), char_of (0x80 + (x div 64) mod 64),
            char_of (0x80 + x mod 64)])"

text \<open>
  Library functions the model does not open: \<open>strings.ToLower\<close>, \<open>strconv.ParseFloat\<close>
  at 64 bits (\<open>None\<close> when it reports an error) and \<open>regexp.MatchString\<close> (pattern first,
  \<open>None\<close> when the pattern does not compile). Every function that calls one of them takes
  the record as its first argument.
\<close>

record stdlib =
  ToLower :: "string \<Rightarrow> string"
  ParseFloat :: "string \<Rightarrow> float64 option"
  MatchString :: "string \<Rightarrow> string \<Rightarrow> bool option"

section \<open>Filter evaluation (the query file)\<close>

text \<open>
  In every \<open>check*\<close> function \<open>base\<close> is the filter's literal (\<open>f.val\<close>) and
  \<open>compared\<close> the value it is checked against: \<open>Filter.check\<close> calls
  \<open>f.op.check(f.val, compareTo)\<close>. A type switch that finds no case, and a failed type
  assertion, fall through to the final \<open>return false\<close>.
\<close>

fun checkEq :: "iface \<Rightarrow> iface \<Rightarrow> bool" where
  "checkEq (IBool v) compared = (case compared of IBool cmp \<Rightarrow> cmp = v | _ \<Rightarrow> False)"
| "checkEq (IInt64 v) compared =
     (case compared of
        IInt64 cmp \<Rightarrow> cmp = v
      | IFloat64 cmp \<Rightarrow> f64_eq cmp (int64_to_float64 v)
      | _ \<Rightarrow> False)"
| "checkEq (IFloat64 v) compared =
     (case compared of
        IFloat64 cmp \<Rightarrow> f64_eq cmp v
      | IInt64 cmp \<Rightarrow> f64_eq (int64_to_float64 cmp) v
      | _ \<Rightarrow> False)"
| "checkEq (IString v) compared = (case compared of IString cmp \<Rightarrow> cmp = v | _ \<Rightarrow> False)"
| "checkEq (IList keys) compared = list_all (\<lambda>key. checkEq key compared) keys"
| "checkEq _ compared = False"

fun checkPartialEq :: "iface \<Rightarrow> iface \<Rightarrow> bool" where
  "checkPartialEq (IBool v) compared = (case compared of IBool cmp \<Rightarrow> cmp = v | _ \<Rightarrow> False)"
| "checkPartialEq (IInt64 v) compared =
     (case compared of
        IInt64 cmp \<Rightarrow> cmp = v
      | IFloat64 cmp \<Rightarrow> f64_eq cmp (int64_to_float64 v)
      | _ \<Rightarrow> False)"
| "checkPartialEq (IFloat64 v) compared =
     (case compared of
        IFloat64 cmp \<Rightarrow> f64_eq cmp v
      | IInt64 cmp \<Rightarrow> f64_eq (int64_to_float64 cmp) v
      | _ \<Rightarrow> False)"
| "checkPartialEq (IString v) compared =
     (case compared of IString cmp \<Rightarrow> Contains cmp (Replace_quote v) | _ \<Rightarrow> False)"
| "checkPartialEq (IList keys) compared = list_ex (\<lambda>key. checkEq key compared) keys"
| "checkPartialEq _ compared = False"

fun checkDiff :: "iface \<Rightarrow> iface \<Rightarrow> bool" where
  "checkDiff (IBool v) compared = (case compared of IBool cmp \<Rightarrow> cmp \<noteq> v | _ \<Rightarrow> False)"
| "checkDiff (IInt64 v) compared =
     (case compared of
        IInt64 cmp \<Rightarrow> cmp \<noteq> v
      | IFloat64 cmp \<Rightarrow> f64_ne cmp (int64_to_float64 v)
      | _ \<Rightarrow> False)"
| "checkDiff (IFloat64 v) compared =
     (case compared of
        IFloat64 cmp \<Rightarrow> f64_ne cmp v
      | IInt64 cmp \<Rightarrow> f64_ne (int64_to_float64 cmp) v
      | _ \<Rightarrow> False)"
| "checkDiff (IString v) compared = (case compared of IString cmp \<Rightarrow> cmp \<noteq> v | _ \<Rightarrow> False)"
| "checkDiff (IList keys) compared = list_all (\<lambda>key. \<not> checkDiff key compared) keys"
| "checkDiff _ compared = False"

fun checkPartialDiff :: "iface \<Rightarrow> iface \<Rightarrow> bool" where
  "checkPartialDiff (IBool v) compared = (case compared of IBool cmp \<Rightarrow> cmp \<noteq> v | _ \<Rightarrow> False)"
| "checkPartialDiff (IInt64 v) compared =
     (case compared of
        IInt64 cmp \<Rightarrow> cmp \<noteq> v
      | IFloat64 cmp \<Rightarrow> f64_ne cmp (int64_to_float64 v)
      | _ \<Rightarrow> False)"
| "checkPartialDiff (IFloat64 v) compared =
     (case compared of
        IFloat64 cmp \<Rightarrow> f64_ne cmp v
      | IInt64 cmp \<Rightarrow> f64_ne (int64_to_float64 cmp) v
      | _ \<Rightarrow> False)"
| "checkPartialDiff (IString v) compared =
     (case compared of IString cmp \<Rightarrow> cmp \<noteq> v | _ \<Rightarrow> False)"
| "checkPartialDiff (IList keys) compared = list_ex (\<lambda>key. \<not> checkDiff key compared) keys"
| "checkPartialDiff _ compared = False"

fun checkSup :: "iface \<Rightarrow> iface \<Rightarrow> bool" where
  "checkSup (IInt64 v) compared =
     (case compared of
        IInt64 cmp \<Rightarrow> sint v < sint cmp
      | IFloat64 cmp \<Rightarrow> f64_gt cmp (int64_to_float64 v)
      | _ \<Rightarrow> False)"
| "checkSup (IFloat64 v) compared =
     (case compared of
        IFloat64 cmp \<Rightarrow> f64_gt cmp v
      | IInt64 cmp \<Rightarrow> f64_gt (int64_to_float64 cmp) v
      | _ \<Rightarrow> False)"
| "checkSup (IString v) compared =
     (case compared of IString cmp \<Rightarrow> string_less v cmp | _ \<Rightarrow> False)"
| "checkSup (IList keys) compared = list_all (\<lambda>key. checkSup key compared) keys"
| "checkSup _ compared = False"

fun checkSupEq :: "iface \<Rightarrow> iface \<Rightarrow> bool" where
  "checkSupEq (IInt64 v) compared =
     (case compared of
        IInt64 cmp \<Rightarrow> sint v \<le> sint cmp
      | IFloat64 cmp \<Rightarrow> f64_ge cmp (int64_to_float64 v)
      | _ \<Rightarrow> False)"
| "checkSupEq (IFloat64 v) compared =
     (case compared of
        IFloat64 cmp \<Rightarrow> f64_ge cmp v
      | IInt64 cmp \<Rightarrow> f64_ge (int64_to_float64 cmp) v
      | _ \<Rightarrow> False)"
| "checkSupEq (IString v) compared =
     (case compared of IString cmp \<Rightarrow> string_less v cmp | _ \<Rightarrow> False)"
| "checkSupEq (IList keys) compared = list_ex (\<lambda>key. checkSupEq key compared) keys"
| "checkSupEq _ compared = False"

fun checkInf :: "iface \<Rightarrow> iface \<Rightarrow> bool" where
  "checkInf (IInt64 v) compared =
     (case compared of
        IInt64 cmp \<Rightarrow> sint cmp < sint v
      | IFloat64 cmp \<Rightarrow> f64_lt cmp (int64_to_float64 v)
      | _ \<Rightarrow> False)"
| "checkInf (IFloat64 v) compared =
     (case compared of
        IFloat64 cmp \<Rightarrow> f64_lt cmp v
      | IInt64 cmp \<Rightarrow> f64_lt (int64_to_float64 cmp) v
      | _ \<Rightarrow> False)"
| "checkInf (IString v) compared =
     (case compared of IString cmp \<Rightarrow> string_less cmp v | _ \<Rightarrow> False)"
| "checkInf (IList keys) compared = list_all (\<lambda>key. checkSup key compared) keys"
| "checkInf _ compared = False"

fun checkInfEq :: "iface \<Rightarrow> iface \<Rightarrow> bool" where
  "checkInfEq (IInt64 v) compared =
     (case compared of
        IInt64 cmp \<Rightarrow> sint cmp \<le> sint v
      | IFloat64 cmp \<Rightarrow> f64_le cmp (int64_to_float64 v)
      | _ \<Rightarrow> False)"
| "checkInfEq (IFloat64 v) compared =
     (case compared of
        IFloat64 cmp \<Rightarrow> f64_le cmp v
      | IInt64 cmp \<Rightarrow> f64_le (int64_to_float64 cmp) v
      | _ \<Rightarrow> False)"
| "checkInfEq (IString v) compared =
     (case compared of IString cmp \<Rightarrow> string_less v cmp | _ \<Rightarrow> False)"
| "checkInfEq (IList keys) compared = list_ex (\<lambda>key. checkInfEq key compared) keys"
| "checkInfEq _ compared = False"

text \<open>
  \<open>checkContain\<close> and \<open>checkNotContain\<close>: the literal \<open>base\<close> is lower-cased and
  trimmed of every leading and trailing quote, \<open>compared\<close> is lower-cased, and the
  result is \<open>strings.Contains(b, c)\<close>, negated in \<open>checkNotContain\<close>.
\<close>

fun checkContain :: "stdlib \<Rightarrow> iface \<Rightarrow> iface \<Rightarrow> bool" where
  "checkContain L (IString b) (IString c) =
     Contains (TrimRight_quote (TrimLeft_quote (ToLower L b))) (ToLower L c)"
| "checkContain L _ _ = False"

fun checkNotContain :: "stdlib \<Rightarrow> iface \<Rightarrow> iface \<Rightarrow> bool" where
  "checkNotContain L (IString b) (IString c) =
     (\<not> Contains (TrimRight_quote (TrimLeft_quote (ToLower L b))) (ToLower L c))"
| "checkNotContain L _ _ = False"

fun checkLike :: "stdlib \<Rightarrow> iface \<Rightarrow> iface \<Rightarrow> bool" where
  "checkLike L (IString b) (IString c) =
     (case MatchString L (TrimRight_quote (TrimLeft_quote (ToLower L b))) (ToLower L c) of
        Some ok \<Rightarrow> ok
      | None \<Rightarrow> False)"
| "checkLike L _ _ = False"

fun checkNotLike :: "stdlib \<Rightarrow> iface \<Rightarrow> iface \<Rightarrow> bool" where
  "checkNotLike L (IString b) (IString c) =
     (case MatchString L (TrimRight_quote (TrimLeft_quote (ToLower L b))) (ToLower L c) of
        Some ok \<Rightarrow> \<not> ok
      | None \<Rightarrow> False)"
| "checkNotLike L _ _ = False"

text \<open>\<open>Operation.check\<close>: an \<open>Operation\<close> is the operator's token.\<close>

type_synonym Operation = string

definition Operation_check :: "stdlib \<Rightarrow> Operation \<Rightarrow> iface \<Rightarrow> iface \<Rightarrow> bool" where
  "Operation_check L op base compared =
     (if op = ''==='' then checkEq base compared
      else if op = ''=='' then checkPartialEq base compared
      else if op = ''!=='' then checkDiff base compared
      else if op = ''!='' then checkPartialDiff base compared
      else if op = ''>'' then checkSup base compared
      else if op = ''>='' then checkSupEq base compared
      else if op = ''<'' then checkInf base compared
      else if op = ''<='' then checkInfEq base compared
      else if op = '':'' then checkContain L base compared
      else if op = ''!:'' then checkNotContain L base compared
      else if op = ''::'' then checkLike L base compared
      else if op = ''!::'' then checkNotLike L base compared
      else False)"

definition findOperation :: "string \<Rightarrow> Operation" where
  "findOperation line =
     (if line \<in> set [''==='', ''=='', ''!=='', ''!='', ''>'', ''>='', ''<'', ''<='', '':'', ''!:'',
                      ''::'', ''!::'']
      then line else ''error'')"

record Filter =
  key :: string
  op :: Operation
  val :: iface

definition Filter_check :: "stdlib \<Rightarrow> Filter \<Rightarrow> iface \<Rightarrow> bool" where
  "Filter_check L f compareTo = Operation_check L (op f) (val f) compareTo"

section \<open>Errors and panics\<close>

text \<open>
  An \<open>error\<close> value made by \<open>fmt.Errorf\<close> is kept as its format string and its
  arguments. A run-time panic of Go (an index out of range, a nil pointer dereference)
  is a value of \<open>panic\<close>; a function that can panic returns \<open>panic + 'a\<close>.
\<close>

datatype error = Errorf string "string list"

datatype panic = IndexOutOfRange | NilDereference

definition go_index :: "'a list \<Rightarrow> int \<Rightarrow> panic + 'a" where
  "go_index xs i = (if 0 \<le> i \<and> i < int (length xs) then Inr (xs ! nat i) else Inl IndexOutOfRange)"

section \<open>The value tree (the value file)\<close>

text \<open>
  Modelled from the spec: the declaration of \<open>Type\<close>, which is not among the source
  files. The specification lists the seven tags of decoded values and the two internal
  tags of raw strings and raw numbers; the names are the ones the code uses.
\<close>

datatype Type =
    TypeNull | TypeObject | TypeArray | TypeString | TypeNumber | TypeTrue | TypeFalse
  | typeRawString | typeRawNumber

text \<open>
  The struct \<open>Value\<close> with its fields \<open>o\<close> (the object's key/value pairs in insertion
  order), \<open>a\<close>, \<open>s\<close>, \<open>n\<close> and \<open>t\<close>. A \<open>*Value\<close> that may be nil is a
  \<open>Value option\<close>.
\<close>

datatype Value =
  Value (Value_o: "(string \<times> Value) list") (Value_a: "Value list") (Value_s: string)
        (Value_n: float64) (Value_t: Type)

definition f64_zero :: float64 where
  "f64_zero = FFin False 0 0"

text \<open>
  Modelled from the spec: \<open>Object.Get\<close>, which the value file calls and which is not
  among the source files. The specification says that lookup by key returns the first
  match in insertion order; nil stands for a key that is absent.
\<close>

definition Object_Get :: "(string \<times> Value) list \<Rightarrow> string \<Rightarrow> Value option" where
  "Object_Get kvs k = map_of kvs k"

subsection \<open>\<open>unescapeStringBestEffort\<close>\<close>

text \<open>
  One turn of the \<open>switch\<close> in the loop: given the byte \<open>ch\<close> after a backslash and the
  text \<open>s\<close> after it, the bytes appended to \<open>b\<close> and the text left to read.
\<close>

definition unescape_switch :: "char \<Rightarrow> string \<Rightarrow> string \<times> string" where
  "unescape_switch ch s =
     (if ch = dquote then ([dquote], s)
      else if ch = backslash then ([backslash], s)
      else if ch = CHR ''/'' then ([CHR ''/''], s)
      else if ch = CHR ''b'' then ([CHR 0x08], s)
      else if ch = CHR ''f'' then ([CHR 0x0C], s)
      else if ch = CHR ''n'' then ([CHR 0x0A], s)
      else if ch = CHR ''r'' then ([CHR 0x0D], s)
      else if ch = CHR ''t'' then ([CHR 0x09], s)
      else if ch = CHR ''u'' then
        (if length s < 4 then ([backslash, ch], s)
         else case ParseUint_16_16 (take 4 s) of
                None \<Rightarrow> ([backslash, ch], s)
              | Some x \<Rightarrow> (string_of_rune x, drop 4 s))
      else ([backslash, ch], s))"

lemma unescape_switch_length: "length (snd (unescape_switch ch s)) \<le> length s"
  by (simp add: unescape_switch_def split: option.split)

text \<open>The \<open>for len(s) > 0\<close> loop, with the buffer \<open>b\<close> and the unread text \<open>s\<close>.\<close>

function unescape_loop :: "string \<Rightarrow> string \<Rightarrow> string" where
  "unescape_loop b [] = b"
| "unescape_loop b (ch # s) =
     (case IndexByte (snd (unescape_switch ch s)) backslash of
        None \<Rightarrow> b @ fst (unescape_switch ch s) @ snd (unescape_switch ch s)
      | Some n \<Rightarrow>
          unescape_loop (b @ fst (unescape_switch ch s) @ take n (snd (unescape_switch ch s)))
            (drop (Suc n) (snd (unescape_switch ch s))))"
  by pat_completeness auto
termination
proof (relation "measure (\<lambda>(b, s). length s)")
  show "wf (measure (\<lambda>(b, s). length s))" by simp
next
  fix b :: string and ch s n
  have "length (snd (unescape_switch ch s)) \<le> length s" by (rule unescape_switch_length)
  then show "((b @ fst (unescape_switch ch s) @ take n (snd (unescape_switch ch s)),
               drop (Suc n) (snd (unescape_switch ch s))), (b, ch # s))
             \<in> measure (\<lambda>(b, s). length s)"
    by simp
qed

definition unescapeStringBestEffort :: "string \<Rightarrow> string" where
  "unescapeStringBestEffort s =
     (case IndexByte s backslash of
        None \<Rightarrow> s
      | Some n \<Rightarrow> unescape_loop (take n s) (drop (Suc n) s))"

subsection \<open>\<open>unescapeStringBestEffort\<close> on the shared bytes\<close>

text \<open>
  The code does not build a new string: \<open>b := s2b(s)\<close> is a slice over the bytes of
  \<open>s\<close> itself, with the length of \<open>s\<close> as its capacity, so every \<open>append\<close> that fits
  the capacity overwrites bytes of the text being read. \<open>mem\<close> is that byte array. The
  buffer \<open>b\<close> is either its first \<open>w\<close> bytes (\<open>Alias w\<close>) or, after an \<open>append\<close> beyond
  the capacity, an array of its own; the unread text \<open>s\<close> is \<open>mem\<close> from offset \<open>r\<close> on.
  The appended bytes are read before they are written, as \<open>append\<close> does when source and
  destination overlap.
\<close>

datatype buf = Alias nat | Own string

fun append_buf :: "string \<Rightarrow> buf \<Rightarrow> string \<Rightarrow> string \<times> buf" where
  "append_buf mem (Alias w) xs =
     (if w + length xs \<le> length mem
      then (take w mem @ xs @ drop (w + length xs) mem, Alias (w + length xs))
      else (mem, Own (take w mem @ xs)))"
| "append_buf mem (Own b) xs = (mem, Own (b @ xs))"

fun buf_bytes :: "string \<Rightarrow> buf \<Rightarrow> string" where
  "buf_bytes mem (Alias w) = take w mem"
| "buf_bytes mem (Own b) = b"

lemma append_buf_length: "length (fst (append_buf mem b xs)) = length mem"
  by (cases b) auto

function unescape_inplace_loop :: "string \<Rightarrow> buf \<Rightarrow> nat \<Rightarrow> string" where
  "unescape_inplace_loop mem b r =
     (if length mem \<le> r then buf_bytes mem b
      else
        let sw = unescape_switch (mem ! r) (drop (Suc r) mem);
            r2 = length mem - length (snd sw);
            m1 = append_buf mem b (fst sw)
        in case IndexByte (drop r2 (fst m1)) backslash of
             None \<Rightarrow>
               (let m2 = append_buf (fst m1) (snd m1) (drop r2 (fst m1))
                in buf_bytes (fst m2) (snd m2))
           | Some n \<Rightarrow>
               (let m2 = append_buf (fst m1) (snd m1) (take n (drop r2 (fst m1)))
                in unescape_inplace_loop (fst m2) (snd m2) (r2 + n + 1)))"
  by pat_completeness auto

termination
proof (relation "measure (\<lambda>(mem, b, r). length mem - r)", goal_cases)
  case 1
  show ?case by simp
next
  case (2 mem b r sw r2 m1 n m2)
  have "length (snd sw) \<le> length (drop (Suc r) mem)"
    unfolding 2 by (rule unescape_switch_length)
  then have "r < r2" using 2 by simp
  moreover have "length (fst m2) = length mem"
    unfolding 2 by (simp add: append_buf_length)
  ultimately show ?case using 2(1) by simp
qed

declare unescape_inplace_loop.simps [simp del]

definition unescape_inplace :: "string \<Rightarrow> string" where
  "unescape_inplace s =
     (case IndexByte s backslash of
        None \<Rightarrow> s
      | Some n \<Rightarrow> unescape_inplace_loop s (Alias n) (n + 1))"

subsection \<open>\<open>Value.Type\<close> and \<open>Value.Get\<close>\<close>

text \<open>
  \<open>Type\<close> changes the node it inspects, so the model returns the node after the call
  together with the tag.
\<close>

definition Value_Type :: "stdlib \<Rightarrow> Value \<Rightarrow> Value \<times> Type" where
  "Value_Type L v =
     (case Value_t v of
        typeRawString \<Rightarrow>
          (Value (Value_o v) (Value_a v) (unescapeStringBestEffort (Value_s v)) (Value_n v)
             TypeString, TypeString)
      | typeRawNumber \<Rightarrow>
          (let f = (case ParseFloat L (Value_s v) of None \<Rightarrow> f64_zero | Some f \<Rightarrow> f)
           in (Value (Value_o v) (Value_a v) (Value_s v) f TypeNumber, TypeNumber))
      | _ \<Rightarrow> (v, Value_t v))"

text \<open>\<open>k + 1\<close> calls of \<open>Type\<close> on the same node, one after the other.\<close>

fun Type_repeated :: "stdlib \<Rightarrow> nat \<Rightarrow> Value \<Rightarrow> Value \<times> Type" where
  "Type_repeated L 0 v = Value_Type L v"
| "Type_repeated L (Suc k) v = Type_repeated L k (fst (Value_Type L v))"

fun Get :: "Value option \<Rightarrow> string list \<Rightarrow> panic + Value option" where
  "Get None keys = Inr None"
| "Get (Some v) [] = Inr (Some v)"
| "Get (Some v) (k # keys) =
     (case Value_t v of
        TypeObject \<Rightarrow>
          (case Object_Get (Value_o v) k of None \<Rightarrow> Inr None | Some v' \<Rightarrow> Get (Some v') keys)
      | TypeArray \<Rightarrow>
          (case Atoi k of
             None \<Rightarrow> Inr None
           | Some n \<Rightarrow>
               if n < 0 \<or> int (length (Value_a v)) \<le> n then Inr None
               else (case go_index (Value_a v) n of
                       Inl p \<Rightarrow> Inl p
                     | Inr v' \<Rightarrow> Get (Some v') keys))
      | _ \<Rightarrow> Inr None)"

subsection \<open>\<open>parseRawNumber\<close> (the parser file)\<close>

definition is_number_char :: "char \<Rightarrow> bool" where
  "is_number_char ch =
     (((48::nat) \<le> of_char ch \<and> (of_char ch :: nat) \<le> 57) \<or> ch = CHR ''-'' \<or> ch = CHR ''.''
      \<or> ch = CHR ''e'' \<or> ch = CHR ''E'' \<or> ch = CHR ''+'')"

text \<open>The loop over \<open>i\<close>; the result is the lexeme and the tail, or the error.\<close>

function parseRawNumber_from :: "nat \<Rightarrow> string \<Rightarrow> error + (string \<times> string)" where
  "parseRawNumber_from i s =
     (if i < length s then
        (if is_number_char (s ! i) then parseRawNumber_from (Suc i) s
         else if i = 0 then Inl (Errorf ''unexpected char: %q'' [take 1 s])
         else Inr (take i s, drop i s))
      else Inr (s, []))"
  by pat_completeness auto
termination
  by (relation "measure (\<lambda>(i, s). length s - i)") auto

declare parseRawNumber_from.simps [simp del]

definition parseRawNumber :: "string \<Rightarrow> error + (string \<times> string)" where
  "parseRawNumber s = parseRawNumber_from 0 s"

subsection \<open>\<open>Value.Keep\<close>\<close>

text \<open>
  \<open>GetKeys\<close> and \<open>splitBraces\<close> are functions of the repository that are not among
  the source files, and \<open>Value.String\<close> renders a string with the \<open>%q\<close> verb of
  \<open>fmt.Sprintf\<close>. \<open>Keep\<close> takes the three as parameters: \<open>GetKeys\<close> gives the plain
  keys and the nested selections of a request, \<open>splitBraces\<close> the pieces of a nested
  selection, \<open>Quote\<close> the quoted form of a string.
\<close>

record keeplib =
  GetKeys :: "string \<Rightarrow> string list \<times> string list"
  splitBraces :: "string \<Rightarrow> string list"
  Quote :: "string \<Rightarrow> string"

text \<open>
  The result of \<open>Keep\<close> is Go's pair of an \<open>interface{}\<close> and an \<open>error\<close>
  (\<open>None\<close> for the nil error), or a panic.
\<close>

type_synonym keep_result = "panic + (iface \<times> error option)"

text \<open>The assignment \<open>rValues[k] = x\<close> on a map.\<close>

fun map_assign :: "string \<Rightarrow> iface \<Rightarrow> (string \<times> iface) list \<Rightarrow> (string \<times> iface) list" where
  "map_assign k x [] = [(k, x)]"
| "map_assign k x ((k', y) # m) = (if k' = k then (k, x) # m else (k', y) # map_assign k x m)"

text \<open>
  The three loops of \<open>Keep\<close>. Each takes, in order, what the call made in one turn of
  the loop returns, and stops at the first turn that returns from \<open>Keep\<close>; the results
  of later turns are not looked at. In the loop over \<open>stays\<close> a turn holds the key and
  the result of \<open>next.Keep("")\<close>, or \<open>None\<close> when \<open>pValue.Get\<close> gave nil; \<open>err\<close> is
  the variable of that name, nil after \<open>v.Object()\<close> and after every turn that went on.
\<close>

fun Keep_array_loop :: "keep_result list \<Rightarrow> iface list \<Rightarrow> keep_result" where
  "Keep_array_loop [] rValues = Inr (IList rValues, None)"
| "Keep_array_loop (r # rs) rValues =
     (case r of
        Inl p \<Rightarrow> Inl p
      | Inr (nValue, Some err) \<Rightarrow> Inr (INil, Some err)
      | Inr (nValue, None) \<Rightarrow> Keep_array_loop rs (rValues @ [nValue]))"

fun Keep_conts_loop :: "(string \<times> keep_result) list \<Rightarrow> (string \<times> iface) list \<Rightarrow> keep_result" where
  "Keep_conts_loop [] rValues = Inr (IMap rValues, None)"
| "Keep_conts_loop ((k, r) # rs) rValues =
     (case r of
        Inl p \<Rightarrow> Inl p
      | Inr (x, Some err) \<Rightarrow> Inr (INil, Some err)
      | Inr (x, None) \<Rightarrow> Keep_conts_loop rs (map_assign k x rValues))"

fun Keep_stays_loop ::
  "(string \<times> keep_result option) list \<Rightarrow> (string \<times> keep_result) list
   \<Rightarrow> (string \<times> iface) list \<Rightarrow> error option \<Rightarrow> keep_result" where
  "Keep_stays_loop [] conts rValues err = Keep_conts_loop conts rValues"
| "Keep_stays_loop ((stay, nxt) # stays) conts rValues err =
     (case nxt of
        None \<Rightarrow> Inr (INil, err)
      | Some r \<Rightarrow>
          (case r of
             Inl p \<Rightarrow> Inl p
           | Inr (x, Some err') \<Rightarrow> Inr (INil, Some err')
           | Inr (x, None) \<Rightarrow> Keep_stays_loop stays conts (map_assign stay x rValues) None))"

lemma map_of_size:
  "map_of kvs k = Some (c :: Value) \<Longrightarrow>
   size c < Suc (size_list (size_prod (\<lambda>x. 0) size) kvs + n)"
  by (induction kvs) (auto split: if_splits)

lemma member_size:
  "(x :: Value) \<in> set xs \<Longrightarrow> size x < Suc (m + size_list size xs)"
  by (induction xs) auto

text \<open>
  \<open>Keep\<close> on a receiver that may be nil: \<open>v.Type()\<close> reads \<open>v.t\<close> and panics on nil.
  In a nested selection the key is \<open>strings.Split(cont, ":")[0]\<close>, the text before
  the first colon, and \<open>val[0]\<close> panics when \<open>splitBraces\<close> gives nothing.
\<close>

function (sequential) Keep :: "stdlib \<Rightarrow> keeplib \<Rightarrow> Value option \<Rightarrow> string \<Rightarrow> keep_result" where
  "Keep L K None request = Inl NilDereference"
| "Keep L K (Some (Value ob ar st nu ty)) request =
     (case snd (Value_Type L (Value ob ar st nu ty)) of
        TypeArray \<Rightarrow>
          Keep_array_loop (map (\<lambda>uValue. Keep L K (Some uValue) request) ar) []
      | TypeObject \<Rightarrow>
          (case GetKeys K request of (stays, conts) \<Rightarrow>
             Keep_stays_loop
               (map (\<lambda>stay. (stay, case Object_Get ob stay of
                                      None \<Rightarrow> None
                                    | Some next \<Rightarrow> Some (Keep L K (Some next) []))) stays)
               (map (\<lambda>cont. (takeWhile (\<lambda>c. c \<noteq> CHR '':'') cont,
                              case go_index (splitBraces K cont) 0 of
                                Inl p \<Rightarrow> Inl p
                              | Inr val0 \<Rightarrow>
                                  (case Object_Get ob (takeWhile (\<lambda>c. c \<noteq> CHR '':'') cont) of
                                     None \<Rightarrow> Inl NilDereference
                                   | Some next \<Rightarrow> Keep L K (Some next) val0))) conts)
               [] None)
      | TypeString \<Rightarrow>
          Inr (IString (Quote K (Value_s (fst (Value_Type L (Value ob ar st nu ty))))), None)
      | TypeNumber \<Rightarrow> Inr (IFloat64 (Value_n (fst (Value_Type L (Value ob ar st nu ty)))), None)
      | TypeFalse \<Rightarrow> Inr (IBool False, None)
      | TypeTrue \<Rightarrow> Inr (IBool True, None)
      | _ \<Rightarrow> Inr (INil, Some (Errorf ''Type not recognized'' [])))"
  by pat_completeness auto
termination
proof (relation "measure (\<lambda>(L, K, v, request). size_option size v)", goal_cases)
  case 1
  show ?case by simp
next
  case 2
  then show ?case by (auto simp: Object_Get_def intro: map_of_size member_size)
next
  case 3
  then show ?case by (auto simp: Object_Get_def intro: map_of_size member_size)
next
  case 4
  then show ?case by (auto simp: Object_Get_def intro: map_of_size member_size)
qed

subsection \<open>Query compilation\<close>

text \<open>
  \<open>typed\<close>: \<open>strconv.ParseInt(v, 10, 64)\<close> accepts what \<open>Atoi\<close> accepts on a 64-bit
  platform.
\<close>

definition typed :: "stdlib \<Rightarrow> string \<Rightarrow> iface" where
  "typed L v =
     (if v = ''true'' then IBool True
      else if v = ''false'' then IBool False
      else if v = ''null'' then INil
      else case Atoi v of
             Some i \<Rightarrow> IInt64 (word_of_int i)
           | None \<Rightarrow> (case ParseFloat L v of Some f \<Rightarrow> IFloat64 f | None \<Rightarrow> IString v))"

text \<open>
  Two results that the model does not compute: the matches of \<open>filterRegex\<close> that
  \<open>FindAllStringSubmatch\<close> finds in a filter text (each match is the list of its
  submatches), and what \<open>splitComa\<close> returns for a line with a byte above 0x7F. There
  \<open>splitComa\<close> slices the runes of the line at byte offsets, and a slice bound between
  the length and the capacity of the rune slice depends on the allocator.
\<close>

record querylib =
  filterRegex_FindAllStringSubmatch :: "string \<Rightarrow> string list list"
  splitComa_beyond_ascii :: "string \<Rightarrow> panic + string list"

fun newFilter_loop :: "stdlib \<Rightarrow> string list list \<Rightarrow> Filter list \<Rightarrow> panic + Filter list" where
  "newFilter_loop L [] filters = Inr filters"
| "newFilter_loop L (match # matches) filters =
     (case go_index match 1 of
        Inl p \<Rightarrow> Inl p
      | Inr m1 \<Rightarrow>
          if 0 < length m1 then
            (case go_index match 2 of
               Inl p \<Rightarrow> Inl p
             | Inr m2 \<Rightarrow>
                 if 0 < length m2 then
                   (case go_index match 3 of
                      Inl p \<Rightarrow> Inl p
                    | Inr m3 \<Rightarrow>
                        if 0 < length m3 then
                          newFilter_loop L matches
                            (filters @ [\<lparr>key = m1, op = findOperation m2, val = typed L m3\<rparr>])
                        else newFilter_loop L matches filters)
                 else newFilter_loop L matches filters)
          else newFilter_loop L matches filters)"

definition newFilter :: "stdlib \<Rightarrow> querylib \<Rightarrow> string \<Rightarrow> panic + Filter list" where
  "newFilter L Q cmd = newFilter_loop L (filterRegex_FindAllStringSubmatch Q cmd) []"

text \<open>
  \<open>splitComa\<close> on a line of ASCII bytes, where the runes are the bytes: the loop over
  the characters left, with the index of the next one, the brace depth \<open>count\<close>, the
  start \<open>firstIndex\<close> of the current piece and the pieces found.
\<close>

fun splitComa_loop :: "string \<Rightarrow> string \<Rightarrow> nat \<Rightarrow> int \<Rightarrow> nat \<Rightarrow> string list \<Rightarrow> string list" where
  "splitComa_loop line [] index count firstIndex array =
     (if firstIndex < length line then array @ [drop firstIndex line] else array)"
| "splitComa_loop line (char # rest) index count firstIndex array =
     (if char = CHR ''{'' then splitComa_loop line rest (Suc index) (count + 1) firstIndex array
      else if char = CHR ''}'' then splitComa_loop line rest (Suc index) (count - 1) firstIndex array
      else if char = CHR '','' \<and> count = 0 then
        splitComa_loop line rest (Suc index) count (Suc index)
          (array @ [take (index - firstIndex) (drop firstIndex line)])
      else splitComa_loop line rest (Suc index) count firstIndex array)"

definition splitComa :: "querylib \<Rightarrow> string \<Rightarrow> panic + string list" where
  "splitComa Q line =
     (if list_all (\<lambda>c. (of_char c :: nat) < 0x80) line then Inr (splitComa_loop line line 0 0 0 [])
      else splitComa_beyond_ascii Q line)"

text \<open>
  \<open>cmdRegex.FindStringSubmatch\<close> for the pattern
  \<^verbatim>\<open>^([a-z_]+)?(?:\(([^{\}\)\(]*)\))?{(.*)}$\<close>: the empty list stands for nil (no
  match), and a match is the list of the whole text and the three groups. The name is
  the longest run of \<open>a-z\<close> and \<open>_\<close>; a parenthesis, if one follows, must close before any
  other bracket; then the text must go on with an opening brace and end with a closing
  one, with no line feed between them.
\<close>

definition is_name_char :: "char \<Rightarrow> bool" where
  "is_name_char c = (((97::nat) \<le> of_char c \<and> (of_char c :: nat) \<le> 122) \<or> c = CHR ''_'')"

definition is_bracket :: "char \<Rightarrow> bool" where
  "is_bracket c = (c = CHR ''{'' \<or> c = CHR ''}'' \<or> c = CHR '')'' \<or> c = CHR ''('')"

definition cmdRegex_filters :: "string \<Rightarrow> (string \<times> string) option" where
  "cmdRegex_filters r1 =
     (case r1 of
        [] \<Rightarrow> Some ([], r1)
      | c # cs \<Rightarrow>
          if c = CHR ''('' then
            (case dropWhile (\<lambda>c. \<not> is_bracket c) cs of
               [] \<Rightarrow> None
             | c' # r2 \<Rightarrow>
                 if c' = CHR '')'' then Some (takeWhile (\<lambda>c. \<not> is_bracket c) cs, r2) else None)
          else Some ([], r1))"

definition cmdRegex_FindStringSubmatch :: "string \<Rightarrow> string list" where
  "cmdRegex_FindStringSubmatch cmd =
     (case cmdRegex_filters (dropWhile is_name_char cmd) of
        None \<Rightarrow> []
      | Some (filters, r2) \<Rightarrow>
          (case r2 of
             [] \<Rightarrow> []
           | c # body \<Rightarrow>
               if c = CHR ''{'' \<and> body \<noteq> [] \<and> last body = CHR ''}''
                  \<and> CHR 0x0A \<notin> set (butlast body)
               then [cmd, takeWhile is_name_char cmd, filters, butlast body]
               else []))"

text \<open>
  A \<open>Level\<close>; the map \<open>next\<close> is a list of pairs with distinct keys, and every
  \<open>*Filter\<close> and \<open>*Level\<close> in it is a value, since the code stores no nil there.
\<close>

datatype Level =
  Level (filters: "Filter list") (nxt: "(string \<times> Level) list") (retrieve: "string list")

fun level_assign :: "string \<Rightarrow> Level \<Rightarrow> (string \<times> Level) list \<Rightarrow> (string \<times> Level) list" where
  "level_assign k x [] = [(k, x)]"
| "level_assign k x ((k', y) # m) = (if k' = k then (k, x) # m else (k', y) # level_assign k x m)"

definition ContainsAny_brackets :: "string \<Rightarrow> bool" where
  "ContainsAny_brackets attr = list_ex is_bracket attr"

text \<open>
  The result of \<open>parseQuery\<close>: the level, its name and the error, or a panic. The
  recursion is bounded by a counter, and \<open>None\<close> says that the counter ran out. The
  loop over the children takes, for each child in order, the result of the recursive call
  (\<open>None\<close> for a child that is a plain name).
\<close>

type_synonym query_result = "(panic + (Level \<times> string \<times> error option)) option"

fun parseQuery_children ::
  "(string \<times> query_result option) list \<Rightarrow> Level \<Rightarrow> (panic + Level) option" where
  "parseQuery_children [] lvl = Some (Inr lvl)"
| "parseQuery_children ((attr, None) # rest) lvl =
     parseQuery_children rest (Level (filters lvl) (nxt lvl) (retrieve lvl @ [attr]))"
| "parseQuery_children ((attr, Some None) # rest) lvl = None"
| "parseQuery_children ((attr, Some (Some (Inl p))) # rest) lvl = Some (Inl p)"
| "parseQuery_children ((attr, Some (Some (Inr (newLevel, levelName, err)))) # rest) lvl =
     parseQuery_children rest
       (Level (filters lvl) (level_assign levelName newLevel (nxt lvl)) (retrieve lvl))"

fun parseQuery :: "nat \<Rightarrow> stdlib \<Rightarrow> querylib \<Rightarrow> string \<Rightarrow> query_result" where
  "parseQuery 0 L Q cmd = None"
| "parseQuery (Suc fuel) L Q cmd =
     (case go_index (cmdRegex_FindStringSubmatch cmd) 2 of
        Inl p \<Rightarrow> Some (Inl p)
      | Inr m2 \<Rightarrow>
          (case (if 0 < length m2 then newFilter L Q m2 else Inr []) of
             Inl p \<Rightarrow> Some (Inl p)
           | Inr fs \<Rightarrow>
               (case go_index (cmdRegex_FindStringSubmatch cmd) 3 of
                  Inl p \<Rightarrow> Some (Inl p)
                | Inr m3 \<Rightarrow>
                    (case (if 0 < length m3 then splitComa Q m3 else Inr []) of
                       Inl p \<Rightarrow> Some (Inl p)
                     | Inr attrs \<Rightarrow>
                         (case parseQuery_children
                                 (map (\<lambda>attr. (attr, if ContainsAny_brackets attr
                                                       then Some (parseQuery fuel L Q attr)
                                                       else None)) attrs)
                                 (Level fs [] []) of
                            None \<Rightarrow> None
                          | Some (Inl p) \<Rightarrow> Some (Inl p)
                          | Some (Inr lvl) \<Rightarrow>
                              (case go_index (cmdRegex_FindStringSubmatch cmd) 1 of
                                 Inl p \<Rightarrow> Some (Inl p)
                               | Inr m1 \<Rightarrow> Some (Inr (lvl, m1, None))))))))"

definition ParseQuery :: "nat \<Rightarrow> stdlib \<Rightarrow> querylib \<Rightarrow> string \<Rightarrow> (panic + (Level \<times> error option)) option" where
  "ParseQuery fuel L Q cmd =
     (case parseQuery fuel L Q cmd of
        None \<Rightarrow> None
      | Some (Inl p) \<Rightarrow> Some (Inl p)
      | Some (Inr (parser, name, err)) \<Rightarrow> Some (Inr (parser, err)))"

section \<open>An instance of the library for evaluating examples\<close>

text \<open>
  The examples below need the library functions at concrete inputs. \<open>example_stdlib\<close>
  agrees with Go on these inputs: \<open>strings.ToLower\<close> on ASCII text, \<open>strconv.ParseFloat\<close>
  on decimal literals (optional sign, digits with an optional point, optional exponent;
  the value is the nearest binary64, ties to even, and an overflow is the error
  \<open>ErrRange\<close>) and on strings that are not a number in any of ParseFloat's notations, and
  \<open>regexp.MatchString\<close> on patterns made of letters and digits only, which match exactly
  where they occur. Hexadecimal notation, infinities, NaN, digit separators, non-ASCII
  letters and patterns with other characters are outside the instance.
\<close>

definition ascii_ToLower :: "string \<Rightarrow> string" where
  "ascii_ToLower s =
     map (\<lambda>c. if (65::nat) \<le> of_char c \<and> (of_char c :: nat) \<le> 90
              then char_of (of_char c + (32::nat)) else c) s"

definition is_letter :: "char \<Rightarrow> bool" where
  "is_letter c = (((65::nat) \<le> of_char c \<and> (of_char c :: nat) \<le> 90)
                 \<or> ((97::nat) \<le> of_char c \<and> (of_char c :: nat) \<le> 122))"

definition scaled :: "int \<Rightarrow> int \<Rightarrow> int \<Rightarrow> int \<times> int" where
  "scaled num den e = (if 0 \<le> e then (num, den * 2 ^ nat e) else (num * 2 ^ nat (- e), den))"

definition round_rat_to_binary64 :: "bool \<Rightarrow> int \<Rightarrow> int \<Rightarrow> float64 option" where
  "round_rat_to_binary64 sg num den =
     (if num = 0 then Some (FFin sg 0 0)
      else
        let e0 = int (bit_length num) - int (bit_length den) - 53;
            e1 = (case scaled num den e0 of (N0, D0) \<Rightarrow> if N0 div D0 < 2 ^ 53 then e0 else e0 + 1);
            e = max e1 (- 1074)
        in case scaled num den e of (N, D) \<Rightarrow>
             let q = N div D;
                 r = N mod D;
                 q' = (if D < 2 * r \<or> (2 * r = D \<and> odd q) then q + 1 else q);
                 e' = (if q' = 2 ^ 53 then e + 1 else e);
                 m = (if q' = 2 ^ 53 then 2 ^ 52 else q')
             in if 971 < e' then None else Some (FFin sg m e'))"

definition decimal_value :: "bool \<Rightarrow> string \<Rightarrow> string \<Rightarrow> int \<Rightarrow> float64 option" where
  "decimal_value sg ip fp ex =
     (let M = digits_val (ip @ fp); E = ex - int (length fp)
      in if 0 \<le> E then round_rat_to_binary64 sg (M * 10 ^ nat E) 1
         else round_rat_to_binary64 sg M (10 ^ nat (- E)))"

definition decimal_ParseFloat :: "string \<Rightarrow> float64 option" where
  "decimal_ParseFloat s =
     (case split_sign s of (sg, r1) \<Rightarrow>
        let ip = takeWhile is_digit r1;
            r2 = dropWhile is_digit r1;
            fp = (case r2 of [] \<Rightarrow> [] | c # cs \<Rightarrow> if c = CHR ''.'' then takeWhile is_digit cs else []);
            r3 = (case r2 of [] \<Rightarrow> [] | c # cs \<Rightarrow> if c = CHR ''.'' then dropWhile is_digit cs else r2)
        in if ip = [] \<and> fp = [] then None
           else (case r3 of
                   [] \<Rightarrow> decimal_value sg ip fp 0
                 | c # cs \<Rightarrow>
                     if c = CHR ''e'' \<or> c = CHR ''E'' then
                       (case split_sign cs of (es, r4) \<Rightarrow>
                          if r4 = [] \<or> \<not> list_all is_digit r4 then None
                          else decimal_value sg ip fp (if es then - digits_val r4 else digits_val r4))
                     else None))"

definition literal_MatchString :: "string \<Rightarrow> string \<Rightarrow> bool option" where
  "literal_MatchString pattern s =
     (if list_all (\<lambda>c. is_letter c \<or> is_digit c) pattern then Some (Contains s pattern) else None)"

definition example_stdlib :: stdlib where
  "example_stdlib =
     \<lparr>ToLower = ascii_ToLower, ParseFloat = decimal_ParseFloat, MatchString = literal_MatchString\<rparr>"

section \<open>Facts about the library functions\<close>

lemma string_less_irrefl: "\<not> string_less v v"
  by (induction v) auto

text \<open>\<open>string_less\<close> is the lexicographic order of the byte values.\<close>

lemma string_less_lexord:
  "string_less a b \<longleftrightarrow> (a, b) \<in> lexord {(x, y). (of_char x :: nat) < of_char y}"
  by (induction a b rule: string_less.induct) auto

lemma HasPrefix_iff: "HasPrefix s p \<longleftrightarrow> (\<exists>ss. s = p @ ss)"
  by (induction s p rule: HasPrefix.induct) auto

text \<open>\<open>Contains s sub\<close> holds exactly when \<open>sub\<close> occurs in \<open>s\<close> as a contiguous block.\<close>

lemma Contains_iff: "Contains s sub \<longleftrightarrow> (\<exists>ps ss. s = ps @ sub @ ss)"
proof (induction s)
  case Nil
  then show ?case by auto
next
  case (Cons c cs)
  show ?case
  proof
    assume "Contains (c # cs) sub"
    then consider "HasPrefix (c # cs) sub" | "Contains cs sub" by auto
    then show "\<exists>ps ss. c # cs = ps @ sub @ ss"
    proof cases
      case 1
      then obtain ss where "c # cs = sub @ ss" by (auto simp: HasPrefix_iff)
      then have "c # cs = [] @ sub @ ss" by simp
      then show ?thesis by blast
    next
      case 2
      then obtain ps ss where "cs = ps @ sub @ ss" using Cons.IH by blast
      then have "c # cs = (c # ps) @ sub @ ss" by simp
      then show ?thesis by blast
    qed
  next
    assume "\<exists>ps ss. c # cs = ps @ sub @ ss"
    then obtain ps ss where eq: "c # cs = ps @ sub @ ss" by blast
    show "Contains (c # cs) sub"
    proof (cases ps)
      case Nil
      then have "HasPrefix (c # cs) sub" using eq by (auto simp: HasPrefix_iff)
      then show ?thesis by simp
    next
      case (Cons p ps')
      then have "cs = ps' @ sub @ ss" using eq by simp
      then have "Contains cs sub" using Cons.IH by blast
      then show ?thesis by simp
    qed
  qed
qed

text \<open>Trimming removes every leading and every trailing quote, and nothing else.\<close>

lemma TrimLeft_quote_spec:
  "\<exists>i. x = replicate i dquote @ TrimLeft_quote x \<and> (TrimLeft_quote x = [] \<or> hd (TrimLeft_quote x) \<noteq> dquote)"
proof -
  define n where "n = length (takeWhile (\<lambda>c. c = dquote) x)"
  have tk: "takeWhile (\<lambda>c. c = dquote) x = replicate n dquote"
    unfolding n_def by (rule replicate_length_same[symmetric]) (auto dest: set_takeWhileD)
  have "x = takeWhile (\<lambda>c. c = dquote) x @ dropWhile (\<lambda>c. c = dquote) x"
    by simp
  then have split: "x = replicate n dquote @ TrimLeft_quote x"
    by (simp only: tk TrimLeft_quote_def)
  have hd: "TrimLeft_quote x = [] \<or> hd (TrimLeft_quote x) \<noteq> dquote"
  proof (cases "dropWhile (\<lambda>c. c = dquote) x = []")
    case True
    then show ?thesis by (simp add: TrimLeft_quote_def)
  next
    case False
    from hd_dropWhile[OF this] show ?thesis by (simp add: TrimLeft_quote_def)
  qed
  from split hd show ?thesis by (intro exI[of _ n] conjI)
qed

lemma TrimRight_quote_spec:
  "\<exists>j. x = TrimRight_quote x @ replicate j dquote \<and> (TrimRight_quote x = [] \<or> last (TrimRight_quote x) \<noteq> dquote)"
proof -
  obtain i where i: "rev x = replicate i dquote @ TrimLeft_quote (rev x)"
    and h: "TrimLeft_quote (rev x) = [] \<or> hd (TrimLeft_quote (rev x)) \<noteq> dquote"
    using TrimLeft_quote_spec[of "rev x"] by blast
  have r: "TrimRight_quote x = rev (TrimLeft_quote (rev x))"
    by (simp add: TrimRight_quote_def TrimLeft_quote_def)
  have "rev (rev x) = rev (replicate i dquote @ TrimLeft_quote (rev x))" using i by simp
  then have "x = TrimRight_quote x @ replicate i dquote" by (simp add: r)
  moreover have "TrimRight_quote x = [] \<or> last (TrimRight_quote x) \<noteq> dquote"
    using h by (auto simp: r last_rev)
  ultimately show ?thesis by blast
qed

section \<open>Facts about \<open>float64\<close>\<close>

lemma bit_length_bounds: "0 < a \<Longrightarrow> 2 ^ (bit_length a - 1) \<le> a \<and> a < 2 ^ bit_length a"
proof (induction a rule: bit_length.induct)
  case (1 n)
  show ?case
  proof (cases "n div 2 = 0")
    case True
    then have "n = 1" using "1.prems" by presburger
    then show ?thesis by (simp add: bit_length.simps)
  next
    case False
    then have pos: "0 < n div 2" using "1.prems" by presburger
    then have ih: "2 ^ (bit_length (n div 2) - 1) \<le> n div 2 \<and> n div 2 < 2 ^ bit_length (n div 2)"
      using "1.IH" "1.prems" by simp
    have bl: "bit_length n = Suc (bit_length (n div 2))"
      using "1.prems" by (subst bit_length.simps) simp
    have "0 < bit_length (n div 2)" using pos by (subst bit_length.simps) simp
    then obtain j where j: "bit_length (n div 2) = Suc j" by (cases "bit_length (n div 2)") auto
    define x :: int where "x = 2 ^ j"
    have "x \<le> n div 2" "n div 2 < 2 * x" using ih j by (simp_all add: x_def)
    then have "2 * x \<le> n" "n < 2 * (2 * x)" by presburger+
    then show ?thesis using bl j by (simp add: x_def)
  qed
qed

lemma f64_eq_real:
  "f64_eq (FFin s1 m1 e1) (FFin s2 m2 e2) \<longleftrightarrow>
     (of_int (signed_mant s1 m1) * 2 powi e1 :: real) = of_int (signed_mant s2 m2) * 2 powi e2"
proof -
  define e where "e = min e1 e2"
  have p1: "(2::real) powi e1 = 2 powi e * 2 ^ nat (e1 - e)"
    unfolding e_def by (simp add: power_int_add[symmetric] flip: power_int_of_nat)
  have p2: "(2::real) powi e2 = 2 powi e * 2 ^ nat (e2 - e)"
    unfolding e_def by (simp add: power_int_add[symmetric] flip: power_int_of_nat)
  have nz: "(2::real) powi e \<noteq> 0" by simp
  have "(of_int (signed_mant s1 m1) * 2 powi e1 :: real) = of_int (signed_mant s2 m2) * 2 powi e2
      \<longleftrightarrow> (of_int (signed_mant s1 m1 * 2 ^ nat (e1 - e)) :: real) = of_int (signed_mant s2 m2 * 2 ^ nat (e2 - e))"
    using nz by (simp add: p1 p2)
  also have "\<dots> \<longleftrightarrow> signed_mant s1 m1 * 2 ^ nat (e1 - e) = signed_mant s2 m2 * 2 ^ nat (e2 - e)"
    by (rule of_int_eq_iff)
  finally show ?thesis by (simp add: e_def)
qed

lemma representable_dvd:
  fixes a m :: int
  assumes k: "0 < k" and a: "2 ^ (52 + k) \<le> a" and m: "0 \<le> m" "m < 2 ^ 53"
    and eq: "(of_int a :: real) = of_int m * 2 powi e"
  shows "2 ^ k dvd a"
proof -
  have apos: "0 < a" using a by (smt (verit) zero_less_power)
  have big: "(2::int) ^ 53 \<le> 2 ^ (53 + k)" by (rule power_increasing) simp_all
  have epos: "0 < e"
  proof (rule ccontr)
    assume "\<not> 0 < e"
    then have "(2::real) powi e \<le> 1"
      by (cases "e = 0") (simp_all add: power_int_def power_le_one)
    then have "of_int m * 2 powi e \<le> (of_int m :: real)"
      using m(1) by (simp add: mult_left_le)
    then have "(of_int a :: real) \<le> of_int m" using eq by simp
    then have "a \<le> m" by simp
    moreover have "(2::int) ^ 53 \<le> 2 ^ (52 + k)" using k by (intro power_increasing) simp_all
    ultimately show False using a m(2) by linarith
  qed
  then have "(2::real) powi e = 2 ^ nat e" by (simp add: power_int_def)
  then have "(of_int a :: real) = of_int (m * 2 ^ nat e)" using eq by simp
  then have aeq: "a = m * 2 ^ nat e" using of_int_eq_iff by blast
  show ?thesis
  proof (cases "k \<le> nat e")
    case True
    then have "(2::int) ^ k dvd 2 ^ nat e" by (simp add: le_imp_power_dvd)
    then show ?thesis using aeq by simp
  next
    case False
    then obtain d where d: "k = nat e + Suc d" by (metis add_Suc_right less_imp_Suc_add not_le)
    have "(2::int) ^ (52 + k) = 2 ^ (53 + d) * 2 ^ nat e" by (simp add: d power_add)
    then have "2 ^ (53 + d) * 2 ^ nat e \<le> m * (2::int) ^ nat e" using a aeq by simp
    then have "2 ^ (53 + d) \<le> m" by simp
    moreover have "(2::int) ^ 53 \<le> 2 ^ (53 + d)" by (rule power_increasing) simp_all
    ultimately show ?thesis using m(2) by linarith
  qed
qed

lemma round_to_binary64_exact:
  assumes a0: "0 \<le> a" and m: "0 \<le> m" "m < 2 ^ 53"
    and eq: "(of_int a :: real) = of_int m * 2 powi e"
  shows "f64_val (round_to_binary64 sg a) = Some (of_int (signed_mant sg a))"
proof (cases "bit_length a \<le> 53")
  case True
  then show ?thesis by (simp add: round_to_binary64_def)
next
  case False
  define k where "k = bit_length a - 53"
  have k: "bit_length a = 53 + k" "0 < k" using False by (simp_all add: k_def)
  have apos: "0 < a" using False a0 by (cases "a = 0") (simp_all add: bit_length.simps)
  have bnd: "2 ^ (52 + k) \<le> a" "a < 2 ^ (53 + k)"
    using bit_length_bounds[OF apos] k by simp_all
  have dvd: "2 ^ k dvd a" by (rule representable_dvd[OF k(2) bnd(1) m eq])
  then have r0: "a mod 2 ^ k = 0" by simp
  define q where "q = a div 2 ^ k"
  have aq: "a = q * 2 ^ k" using dvd by (simp add: q_def)
  have "q * 2 ^ k < 2 ^ 53 * (2::int) ^ k" using bnd(2) aq by (simp add: power_add)
  then have q53: "q < 2 ^ 53" by simp
  have hpos: "(0::int) < 2 ^ (k - 1)" by simp
  have res: "round_to_binary64 sg a = FFin sg q (int k)"
    using False r0 q53 hpos unfolding round_to_binary64_def Let_def k_def[symmetric] q_def[symmetric]
    by simp
  have "(of_int (signed_mant sg q) * 2 powi int k :: real) = of_int (signed_mant sg a)"
    by (simp add: signed_mant_def aq)
  then show ?thesis by (simp add: res)
qed

lemma int_float_equal:
  assumes c: "is_binary64 c" and v: "f64_val c = Some (of_int (sint v))"
  shows "f64_eq c (int64_to_float64 v)" and "f64_eq (int64_to_float64 v) c"
proof -
  obtain s m e where cc: "c = FFin s m e" using v by (cases c) auto
  have m: "0 \<le> m" "m < 2 ^ 53" using c cc by auto
  have val: "(of_int (signed_mant s m) * 2 powi e :: real) = of_int (sint v)" using v cc by simp
  define a where "a = \<bar>sint v\<bar>"
  define sg where "sg = (sint v < 0)"
  have sa: "signed_mant sg a = sint v" by (auto simp: signed_mant_def a_def sg_def)
  have "\<bar>of_int (signed_mant s m) * 2 powi e :: real\<bar> = \<bar>of_int (sint v)\<bar>" using val by simp
  then have "(of_int a :: real) = of_int m * 2 powi e"
    using m(1) by (simp add: abs_mult a_def signed_mant_def split: if_splits)
  then have ex: "f64_val (round_to_binary64 sg a) = Some (of_int (sint v))"
    using round_to_binary64_exact[of a m e sg] m sa by (simp add: a_def)
  obtain s' m' e' where r: "round_to_binary64 sg a = FFin s' m' e'"
    using ex by (cases "round_to_binary64 sg a") auto
  have "(of_int (signed_mant s' m') * 2 powi e' :: real) = of_int (signed_mant s m) * 2 powi e"
    using ex r val by simp
  then show "f64_eq c (int64_to_float64 v)" and "f64_eq (int64_to_float64 v) c"
    unfolding int64_to_float64_def a_def[symmetric] sg_def[symmetric] r cc
    by (simp_all only: f64_eq_real)
qed

text \<open>The conversion of an \<open>int64\<close> gives a binary64 value, exact below \<open>2^53\<close>.\<close>

lemma round_to_binary64_is_binary64:
  assumes "0 \<le> a" "a < 2 ^ 64"
  shows "is_binary64 (round_to_binary64 sg a)"
proof (cases "bit_length a \<le> 53")
  case True
  have "a < 2 ^ 53"
  proof (cases "a = 0")
    case True
    then show ?thesis by simp
  next
    case False
    then have "a < 2 ^ bit_length a" using assms(1) bit_length_bounds[of a] by simp
    also have "(2::int) ^ bit_length a \<le> 2 ^ 53" using True by (intro power_increasing) simp_all
    finally show ?thesis .
  qed
  then show ?thesis using True assms(1) by (simp add: round_to_binary64_def)
next
  case False
  define k where "k = bit_length a - 53"
  have bl: "bit_length a = 53 + k" "0 < k" using False by (simp_all add: k_def)
  have apos: "0 < a" using False assms(1) by (cases "a = 0") (simp_all add: bit_length.simps)
  have bnd: "2 ^ (52 + k) \<le> a" "a < 2 ^ (53 + k)"
    using bit_length_bounds[OF apos] bl by simp_all
  have lt: "(2::int) ^ (52 + k) < 2 ^ 64" using bnd(1) assms(2) by linarith
  have "52 + k < 64" by (rule power_less_imp_less_exp[OF _ lt]) simp
  then have k11: "k \<le> 11" by simp
  define q where "q = a div 2 ^ k"
  have "q * 2 ^ k + a mod 2 ^ k = a" unfolding q_def by (rule div_mult_mod_eq)
  moreover have "0 \<le> a mod 2 ^ k" by simp
  ultimately have "q * 2 ^ k \<le> a" by linarith
  moreover have "a < 2 ^ 53 * 2 ^ k" using bnd(2) by (simp add: power_add)
  ultimately have "q * 2 ^ k < 2 ^ 53 * (2::int) ^ k" by linarith
  then have q53: "q < 2 ^ 53" by simp
  have q0: "0 \<le> q" using assms(1) by (simp add: q_def pos_imp_zdiv_nonneg_iff)
  define q' where "q' = (if 2 ^ (k - 1) < a mod 2 ^ k \<or> (a mod 2 ^ k = 2 ^ (k - 1) \<and> odd q) then q + 1 else q)"
  have q'r: "0 \<le> q'" "q' \<le> 2 ^ 53" using q53 q0 by (auto simp: q'_def)
  have res: "round_to_binary64 sg a =
      (if q' = 2 ^ 53 then FFin sg (2 ^ 52) (int k + 1) else FFin sg q' (int k))"
    using False unfolding round_to_binary64_def Let_def k_def[symmetric] q_def[symmetric] q'_def
    by simp
  show ?thesis using q'r k11 by (cases "q' = 2 ^ 53") (simp_all add: res)
qed

lemma int64_to_float64_is_binary64: "is_binary64 (int64_to_float64 v)"
proof -
  have "- (2 ^ 63) \<le> sint v" "sint v < 2 ^ 63"
    using sint_ge[of v] sint_lt[of v] by simp_all
  then have "\<bar>sint v\<bar> < 2 ^ 64" by simp
  then show ?thesis unfolding int64_to_float64_def
    by (intro round_to_binary64_is_binary64) simp_all
qed

lemma int64_to_float64_exact:
  assumes "\<bar>sint v\<bar> < 2 ^ 53"
  shows "f64_val (int64_to_float64 v) = Some (of_int (sint v))"
proof -
  have "f64_val (round_to_binary64 (sint v < 0) \<bar>sint v\<bar>)
          = Some (of_int (signed_mant (sint v < 0) \<bar>sint v\<bar>))"
    using assms by (intro round_to_binary64_exact[where m = "\<bar>sint v\<bar>" and e = 0]) simp_all
  then show ?thesis by (simp add: int64_to_float64_def signed_mant_def)
qed

section \<open>Facts about unescaping and number lexing\<close>

text \<open>
  On four bytes \<open>ParseUint\<close> fails exactly when one of them is no hexadecimal digit: the
  value of four digits is always below \<open>2^16\<close>.
\<close>

lemma hex_digit_less: "hex_digit c = Some d \<Longrightarrow> d < 16"
  by (auto simp: hex_digit_def Let_def split: if_splits)

lemma hex_value_None_iff: "hex_value acc xs = None \<longleftrightarrow> (\<exists>c \<in> set xs. hex_digit c = None)"
  by (induction xs arbitrary: acc) (auto split: option.splits)

lemma hex_value_bound: "hex_value acc xs = Some x \<Longrightarrow> x < (acc + 1) * 16 ^ length xs"
proof (induction xs arbitrary: acc)
  case Nil
  then show ?case by simp
next
  case (Cons c cs)
  then obtain d where d: "hex_digit c = Some d" "hex_value (16 * acc + d) cs = Some x"
    by (auto split: option.splits)
  have "x < (16 * acc + d + 1) * 16 ^ length cs" using Cons.IH[OF d(2)] .
  also have "\<dots> \<le> (16 * acc + 16) * 16 ^ length cs"
    using hex_digit_less[OF d(1)] by (intro mult_right_mono) simp_all
  also have "\<dots> = (acc + 1) * 16 ^ length (c # cs)" by (simp add: algebra_simps)
  finally show ?case .
qed

lemma ParseUint_16_16_four:
  assumes "length hex = 4"
  shows "ParseUint_16_16 hex = None \<longleftrightarrow> (\<exists>c \<in> set hex. hex_digit c = None)"
proof (cases "hex_value 0 hex")
  case None
  then show ?thesis using assms hex_value_None_iff[of 0 hex]
    by (auto simp: ParseUint_16_16_def)
next
  case (Some x)
  then have "x < 16 ^ 4" using hex_value_bound[OF Some] assms by simp
  then have "x < 2 ^ 16" by simp
  moreover have "hex \<noteq> []" using assms by auto
  ultimately show ?thesis using Some hex_value_None_iff[of 0 hex]
    by (auto simp: ParseUint_16_16_def)
qed

lemma IndexByte_None_iff: "IndexByte s c = None \<longleftrightarrow> c \<notin> set s"
  by (induction s) (auto split: option.splits)

lemma IndexByte_append: "c \<notin> set pre \<Longrightarrow> IndexByte (pre @ c # r) c = Some (length pre)"
  by (induction pre) auto

lemma unescape_loop_buffer: "unescape_loop b s = b @ unescape_loop [] s"
proof (induction "length s" arbitrary: b s rule: less_induct)
  case less
  show ?case
  proof (cases s)
    case Nil
    then show ?thesis by simp
  next
    case (Cons ch r)
    define ap where "ap = fst (unescape_switch ch r)"
    define s2 where "s2 = snd (unescape_switch ch r)"
    have len: "length s2 \<le> length r" unfolding s2_def by (rule unescape_switch_length)
    show ?thesis
    proof (cases "IndexByte s2 backslash")
      case None
      then show ?thesis using Cons by (simp add: ap_def s2_def)
    next
      case (Some n)
      have short: "length (drop (Suc n) s2) < length s" using len Cons by simp
      have "unescape_loop (b @ ap @ take n s2) (drop (Suc n) s2)
              = (b @ ap @ take n s2) @ unescape_loop [] (drop (Suc n) s2)"
        by (rule less.hyps[OF short])
      moreover have "unescape_loop ([] @ ap @ take n s2) (drop (Suc n) s2)
              = ([] @ ap @ take n s2) @ unescape_loop [] (drop (Suc n) s2)"
        by (rule less.hyps[OF short])
      ultimately show ?thesis using Some Cons by (simp add: ap_def s2_def)
    qed
  qed
qed

lemma unescape_loop_step:
  "unescape_loop b (ch # s) =
     b @ fst (unescape_switch ch s) @ unescapeStringBestEffort (snd (unescape_switch ch s))"
proof (cases "IndexByte (snd (unescape_switch ch s)) backslash")
  case None
  then show ?thesis by (simp add: unescapeStringBestEffort_def)
next
  case (Some n)
  have "unescape_loop (b @ fst (unescape_switch ch s) @ take n (snd (unescape_switch ch s)))
            (drop (Suc n) (snd (unescape_switch ch s)))
        = b @ fst (unescape_switch ch s) @ take n (snd (unescape_switch ch s))
            @ unescape_loop [] (drop (Suc n) (snd (unescape_switch ch s)))"
    by (subst unescape_loop_buffer) simp
  moreover have "unescape_loop (take n (snd (unescape_switch ch s)))
            (drop (Suc n) (snd (unescape_switch ch s)))
        = take n (snd (unescape_switch ch s))
            @ unescape_loop [] (drop (Suc n) (snd (unescape_switch ch s)))"
    by (subst unescape_loop_buffer) simp
  ultimately show ?thesis using Some by (simp add: unescapeStringBestEffort_def)
qed

lemma unescape_no_backslash: "backslash \<notin> set pre \<Longrightarrow> unescapeStringBestEffort pre = pre"
  using IndexByte_None_iff[of pre backslash] by (simp add: unescapeStringBestEffort_def)

lemma unescape_escape:
  assumes "backslash \<notin> set pre"
  shows "unescapeStringBestEffort (pre @ backslash # ch # s) =
           pre @ fst (unescape_switch ch s) @ unescapeStringBestEffort (snd (unescape_switch ch s))"
proof -
  have "unescapeStringBestEffort (pre @ backslash # ch # s) = unescape_loop pre (ch # s)"
    using assms by (simp add: unescapeStringBestEffort_def IndexByte_append del: unescape_loop.simps)
  then show ?thesis by (simp only: unescape_loop_step)
qed

text \<open>A backslash that ends the text has no escape character after it and is dropped.\<close>

lemma unescape_trailing_backslash:
  "backslash \<notin> set pre \<Longrightarrow> unescapeStringBestEffort (pre @ [backslash]) = pre"
  by (simp add: unescapeStringBestEffort_def IndexByte_append)

lemma IndexByte_Some_less: "IndexByte s c = Some n \<Longrightarrow> n < length s"
  by (induction s arbitrary: n) (auto split: if_splits option.splits)

lemma length_string_of_rune: "length (string_of_rune x) \<le> 3"
  by (simp add: string_of_rune_def)

lemma unescape_switch_shape:
  "\<exists>k. snd (unescape_switch ch t) = drop k t \<and> k \<le> length t
       \<and> length (fst (unescape_switch ch t)) \<le> k + 2"
proof (cases "ch = CHR ''u'' \<and> 4 \<le> length t \<and> ParseUint_16_16 (take 4 t) \<noteq> None")
  case True
  then obtain x where "ParseUint_16_16 (take 4 t) = Some x" by auto
  then have "unescape_switch ch t = (string_of_rune x, drop 4 t)"
    using True by (simp add: unescape_switch_def)
  then show ?thesis using True length_string_of_rune[of x] by (intro exI[of _ 4]) simp
next
  case False
  then have "snd (unescape_switch ch t) = t \<and> length (fst (unescape_switch ch t)) \<le> 2"
    by (auto simp: unescape_switch_def split: option.splits)
  then show ?thesis by (intro exI[of _ 0]) simp
qed

lemma overwrite_take:
  "a + length xs \<le> length mem \<Longrightarrow>
   take (a + length xs) (take a mem @ xs @ drop (a + length xs) mem) = take a mem @ xs"
  by simp

lemma overwrite_drop:
  "a + length xs \<le> j \<Longrightarrow> j \<le> length mem \<Longrightarrow>
   drop j (take a mem @ xs @ drop (a + length xs) mem) = drop j mem"
  by simp

text \<open>
  While the buffer ends before the read position, a turn of the loop writes only bytes
  that have been read, the capacity is never exceeded, and the loop on the shared bytes
  computes what the loop on separate lists computes.
\<close>

lemma unescape_inplace_loop_refines:
  "w < r \<Longrightarrow> r \<le> length mem \<Longrightarrow>
   unescape_inplace_loop mem (Alias w) r = unescape_loop (take w mem) (drop r mem)"
proof (induction "length mem - r" arbitrary: mem w r rule: less_induct)
  case less
  show ?case
  proof (cases "r = length mem")
    case True
    then show ?thesis by (subst unescape_inplace_loop.simps) simp
  next
    case False
    then have rlt: "r < length mem" using less.prems by simp
    define ch where "ch = mem ! r"
    define t where "t = drop (Suc r) mem"
    define xs where "xs = fst (unescape_switch ch t)"
    define rest where "rest = snd (unescape_switch ch t)"
    have dr: "drop r mem = ch # t"
      using rlt by (simp add: ch_def t_def Cons_nth_drop_Suc)
    obtain k where k: "rest = drop k t" "k \<le> length t" "length xs \<le> k + 2"
      using unescape_switch_shape[of ch t] unfolding rest_def xs_def by blast
    define r2 where "r2 = length mem - length rest"
    have lt: "length t = length mem - Suc r" by (simp add: t_def)
    have r2: "r2 = r + 1 + k" using k(1,2) lt rlt by (simp add: r2_def)
    have r2le: "r2 \<le> length mem" by (simp add: r2_def)
    have fits: "w + length xs \<le> r2" using less.prems(1) k(3) r2 by simp
    have fits': "w + length xs \<le> length mem" using fits r2le by simp
    define mem1 where "mem1 = take w mem @ xs @ drop (w + length xs) mem"
    have m1: "append_buf mem (Alias w) xs = (mem1, Alias (w + length xs))"
      using fits' by (simp add: mem1_def)
    have len1: "length mem1 = length mem" using fits' by (simp add: mem1_def)
    have take1: "take (w + length xs) mem1 = take w mem @ xs"
      unfolding mem1_def by (rule overwrite_take[OF fits'])
    have drop1: "drop r2 mem1 = rest"
    proof -
      have "drop r2 mem1 = drop r2 mem"
        unfolding mem1_def by (rule overwrite_drop[OF fits r2le])
      also have "\<dots> = drop k t" by (simp add: r2 t_def add.commute)
      finally show ?thesis by (simp add: k(1))
    qed
    have lrest: "length rest = length mem - r2" using k(1,2) lt r2 by simp
    show ?thesis
    proof (cases "IndexByte rest backslash")
      case None
      have room: "(w + length xs) + length rest \<le> length mem1"
        using fits lrest r2le len1 by simp
      define mem2 where
        "mem2 = take (w + length xs) mem1 @ rest @ drop ((w + length xs) + length rest) mem1"
      have m2: "append_buf mem1 (Alias (w + length xs)) rest =
              (mem2, Alias ((w + length xs) + length rest))"
        using room by (simp add: mem2_def)
      have bytes: "take ((w + length xs) + length rest) mem2 = take w mem @ xs @ rest"
        unfolding mem2_def using overwrite_take[OF room] take1 by simp
      have "unescape_inplace_loop mem (Alias w) r = take w mem @ xs @ rest"
        using rlt
        by (subst unescape_inplace_loop.simps)
           (simp add: Let_def ch_def[symmetric] t_def[symmetric] xs_def[symmetric]
              rest_def[symmetric] r2_def[symmetric] m1 drop1 None m2 bytes
              del: append_buf.simps)
      moreover have "unescape_loop (take w mem) (drop r mem) = take w mem @ xs @ rest"
        using None by (simp add: dr xs_def rest_def)
      ultimately show ?thesis by simp
    next
      case (Some n)
      have nlt: "n < length rest" using Some by (rule IndexByte_Some_less)
      define w2 where "w2 = (w + length xs) + n"
      define r3 where "r3 = r2 + n + 1"
      have r3le: "r3 \<le> length mem" using nlt lrest by (simp add: r3_def)
      have w2lt: "w2 < r3" using fits by (simp add: w2_def r3_def)
      have ltk: "length (take n rest) = n" using nlt by simp
      have room: "(w + length xs) + length (take n rest) \<le> length mem1"
        using w2lt r3le len1 ltk by (simp add: w2_def)
      define mem2 where
        "mem2 = take (w + length xs) mem1 @ take n rest
                  @ drop ((w + length xs) + length (take n rest)) mem1"
      have m2: "append_buf mem1 (Alias (w + length xs)) (take n rest) = (mem2, Alias w2)"
        using room ltk by (simp add: mem2_def w2_def)
      have len2: "length mem2 = length mem" using room len1 by (simp add: mem2_def)
      have take2: "take w2 mem2 = take w mem @ xs @ take n rest"
      proof -
        have "take ((w + length xs) + length (take n rest)) mem2 = take (w + length xs) mem1 @ take n rest"
          unfolding mem2_def by (rule overwrite_take[OF room])
        then show ?thesis using ltk take1 by (simp add: w2_def)
      qed
      have drop2: "drop r3 mem2 = drop (Suc n) rest"
      proof -
        have a: "(w + length xs) + length (take n rest) \<le> r3" using w2lt ltk by (simp add: w2_def)
        have b: "r3 \<le> length mem1" using r3le len1 by simp
        have "drop r3 mem2 = drop r3 mem1"
          unfolding mem2_def by (rule overwrite_drop[OF a b])
        also have "\<dots> = drop (Suc n) (drop r2 mem1)" by (simp add: r3_def add.commute)
        finally show ?thesis by (simp add: drop1)
      qed
      have smaller: "length mem2 - r3 < length mem - r" using len2 r3le rlt r2 by (simp add: r3_def)
      have r3le2: "r3 \<le> length mem2" using r3le len2 by simp
      have ih: "unescape_inplace_loop mem2 (Alias w2) r3 = unescape_loop (take w2 mem2) (drop r3 mem2)"
        by (rule less.hyps[OF smaller w2lt r3le2])
      have "unescape_inplace_loop mem (Alias w) r = unescape_inplace_loop mem2 (Alias w2) r3"
        using rlt
        by (subst unescape_inplace_loop.simps)
           (simp add: Let_def ch_def[symmetric] t_def[symmetric] xs_def[symmetric]
              rest_def[symmetric] r2_def[symmetric] m1 drop1 Some m2 r3_def
              del: append_buf.simps)
      moreover have "unescape_loop (take w mem) (drop r mem) =
              unescape_loop (take w mem @ xs @ take n rest) (drop (Suc n) rest)"
        using Some by (simp add: dr xs_def rest_def)
      ultimately show ?thesis using ih take2 drop2 by simp
    qed
  qed
qed

text \<open>
  The function as the code runs it, on the bytes of its argument, returns what
  \<open>unescapeStringBestEffort\<close> returns.
\<close>

lemma unescape_inplace_eq: "unescape_inplace s = unescapeStringBestEffort s"
proof (cases "IndexByte s backslash")
  case None
  then show ?thesis by (simp add: unescape_inplace_def unescapeStringBestEffort_def)
next
  case (Some n)
  then have "n < length s" by (rule IndexByte_Some_less)
  then have "unescape_inplace_loop s (Alias n) (n + 1) = unescape_loop (take n s) (drop (n + 1) s)"
    by (intro unescape_inplace_loop_refines) simp_all
  then show ?thesis using Some by (simp add: unescape_inplace_def unescapeStringBestEffort_def)
qed

text \<open>
  The standard layout of a code point below \<open>2^16\<close> in UTF-8, read back from one, two
  or three bytes.
\<close>

definition utf8_code_point :: "string \<Rightarrow> nat option" where
  "utf8_code_point bs =
     (case map of_char bs of
        [b0] \<Rightarrow> if b0 < (0x80::nat) then Some b0 else None
      | [b0, b1] \<Rightarrow>
          if 0xC0 \<le> b0 \<and> b0 < 0xE0 \<and> 0x80 \<le> b1 \<and> b1 < 0xC0
          then Some ((b0 - 0xC0) * 64 + (b1 - 0x80)) else None
      | [b0, b1, b2] \<Rightarrow>
          if 0xE0 \<le> b0 \<and> b0 < 0xF0 \<and> 0x80 \<le> b1 \<and> b1 < 0xC0 \<and> 0x80 \<le> b2 \<and> b2 < 0xC0
          then Some ((b0 - 0xE0) * 4096 + (b1 - 0x80) * 64 + (b2 - 0x80)) else None
      | _ \<Rightarrow> None)"

lemma of_char_of_small: "n < 256 \<Longrightarrow> (of_char (char_of n) :: nat) = n"
  by (simp add: of_char_of)

lemma string_of_rune_code_point:
  assumes "x < 2 ^ 16"
  shows "utf8_code_point (string_of_rune x) =
           Some (if 0xD800 \<le> x \<and> x \<le> 0xDFFF then 0xFFFD else x)"
proof -
  consider "x < 0x80" | "0x80 \<le> x" "x < 0x800" | "0xD800 \<le> x" "x \<le> 0xDFFF"
    | "0x800 \<le> x" "\<not> (0xD800 \<le> x \<and> x \<le> 0xDFFF)"
    by linarith
  then show ?thesis
  proof cases
    case 1
    then show ?thesis
      by (simp add: string_of_rune_def utf8_code_point_def of_char_of_small)
  next
    case 2
    have a: "192 + x div 64 < 256" "128 + x mod 64 < 256" using 2 by simp_all
    have b: "192 + x div 64 < 224" using 2 by simp
    show ?thesis
      using 2 b by (simp add: string_of_rune_def utf8_code_point_def of_char_of_small[OF a(1)]
          of_char_of_small[OF a(2)])
  next
    case 3
    then show ?thesis
      by (simp add: string_of_rune_def utf8_code_point_def)
  next
    case 4
    have x: "x < 65536" using assms by simp
    have a: "224 + x div 4096 < 256" "128 + x div 64 mod 64 < 256" "128 + x mod 64 < 256"
      using x by simp_all
    have b: "224 + x div 4096 < 240" using x by simp
    define y where "y = x div 64"
    have "x div 4096 = y div 64" by (simp add: y_def div_mult2_eq[symmetric])
    moreover have "x = y * 64 + x mod 64" by (simp add: y_def)
    moreover have "y = y div 64 * 64 + y mod 64" by simp
    ultimately have c: "x div 4096 * 4096 + x div 64 mod 64 * 64 + x mod 64 = x"
      unfolding y_def[symmetric] by linarith
    show ?thesis
      using 4 b c by (simp add: string_of_rune_def utf8_code_point_def of_char_of_small[OF a(1)]
          of_char_of_small[OF a(2)] of_char_of_small[OF a(3)])
  qed
qed

lemma takeWhile_take_index:
  assumes "i < length s" "list_all P (take i s)" "\<not> P (s ! i)"
  shows "takeWhile P s = take i s" and "dropWhile P s = drop i s"
proof -
  have s: "s = take i s @ (s ! i) # drop (Suc i) s"
    using assms(1) by (simp add: id_take_nth_drop)
  have all: "\<And>x. x \<in> set (take i s) \<Longrightarrow> P x"
    using assms(2) by (simp add: list_all_iff)
  have "takeWhile P (take i s @ (s ! i) # drop (Suc i) s) = take i s"
    using all assms(3) by (simp add: takeWhile_append2 del: append_take_drop_id)
  then show "takeWhile P s = take i s" using s by simp
  have "dropWhile P (take i s @ (s ! i) # drop (Suc i) s) = (s ! i) # drop (Suc i) s"
    using all assms(3) by (simp add: dropWhile_append2 del: append_take_drop_id)
  then show "dropWhile P s = drop i s"
    using s assms(1) by (simp add: Cons_nth_drop_Suc)
qed

lemma parseRawNumber_from_run:
  "i \<le> length s \<Longrightarrow> list_all is_number_char (take i s) \<Longrightarrow>
   parseRawNumber_from i s =
     (if s \<noteq> [] \<and> takeWhile is_number_char s = []
      then Inl (Errorf ''unexpected char: %q'' [take 1 s])
      else Inr (takeWhile is_number_char s, dropWhile is_number_char s))"
proof (induction i s rule: parseRawNumber_from.induct)
  case (1 i s)
  show ?case
  proof (cases "i < length s")
    case False
    then have "take i s = s" using "1.prems" by simp
    then have all: "list_all is_number_char s" using "1.prems" by simp
    then have tw: "takeWhile is_number_char s = s" "dropWhile is_number_char s = []"
      by (simp_all add: list_all_iff)
    have "parseRawNumber_from i s = Inr (s, [])"
      using False by (subst parseRawNumber_from.simps) simp
    then show ?thesis by (simp only: tw) simp
  next
    case True
    show ?thesis
    proof (cases "is_number_char (s ! i)")
      case num: True
      have "list_all is_number_char (take (Suc i) s)"
        using True num "1.prems" by (simp add: take_Suc_conv_app_nth)
      then have "parseRawNumber_from (Suc i) s =
         (if s \<noteq> [] \<and> takeWhile is_number_char s = []
          then Inl (Errorf ''unexpected char: %q'' [take 1 s])
          else Inr (takeWhile is_number_char s, dropWhile is_number_char s))"
        using "1.IH"[OF True num] True by simp
      then show ?thesis using True num by (subst parseRawNumber_from.simps) simp
    next
      case other: False
      note tw = takeWhile_take_index[where P = is_number_char, OF True "1.prems"(2) other]
      have ne: "s \<noteq> []" using True by auto
      show ?thesis
      proof (cases "i = 0")
        case True
        then show ?thesis using \<open>i < length s\<close> other tw ne
          by (subst parseRawNumber_from.simps) simp
      next
        case False
        then have "take i s \<noteq> []" using \<open>i < length s\<close> by auto
        then show ?thesis using \<open>i < length s\<close> other tw False
          by (subst parseRawNumber_from.simps) simp
      qed
    qed
  qed
qed

lemma Get_no_panic: "Get r keys \<noteq> Inl p"
proof (induction r keys rule: Get.induct)
  case (1 keys)
  then show ?case by simp
next
  case (2 v)
  then show ?case by simp
next
  case (3 v k keys)
  show ?case
  proof (cases "Value_t v = TypeObject")
    case True
    then show ?thesis using "3.IH"(1) by (simp split: option.split)
  next
    case nobj: False
    show ?thesis
    proof (cases "Value_t v = TypeArray")
      case True
      show ?thesis
      proof (cases "Atoi k")
        case None
        then show ?thesis using True by simp
      next
        case (Some n)
        show ?thesis
        proof (cases "n < 0 \<or> int (length (Value_a v)) \<le> n")
          case True
          then show ?thesis using \<open>Value_t v = TypeArray\<close> Some by auto
        next
          case False
          then have idx: "go_index (Value_a v) n = Inr (Value_a v ! nat n)"
            by (simp add: go_index_def)
          have "Get (Some (Value_a v ! nat n)) keys \<noteq> Inl p"
            using "3.IH"(2)[OF \<open>Value_t v = TypeArray\<close> Some _ idx] False by simp
          then show ?thesis using \<open>Value_t v = TypeArray\<close> Some False idx by simp
        qed
      qed
    next
      case False
      then show ?thesis using nobj by (cases "Value_t v") simp_all
    qed
  qed
qed

definition simple_escapes :: "(char \<times> char) list" where
  "simple_escapes =
     [(dquote, dquote), (backslash, backslash), (CHR ''/'', CHR ''/''), (CHR ''b'', CHR 0x08),
      (CHR ''f'', CHR 0x0C), (CHR ''n'', CHR 0x0A), (CHR ''r'', CHR 0x0D), (CHR ''t'', CHR 0x09)]"

lemma unescape_cases:
  assumes "backslash \<notin> set pre"
  shows "unescapeStringBestEffort pre = pre"
    and "(e, d) \<in> set simple_escapes \<Longrightarrow>
           unescapeStringBestEffort (pre @ backslash # e # rest) =
             pre @ d # unescapeStringBestEffort rest"
    and "length hex = 4 \<Longrightarrow> ParseUint_16_16 hex = Some x \<Longrightarrow>
           unescapeStringBestEffort (pre @ backslash # CHR ''u'' # hex @ rest) =
             pre @ string_of_rune x @ unescapeStringBestEffort rest
           \<and> utf8_code_point (string_of_rune x) =
               Some (if 0xD800 \<le> x \<and> x \<le> 0xDFFF then 0xFFFD else x)"
    and "length rest < 4 \<or> ParseUint_16_16 (take 4 rest) = None \<Longrightarrow>
           unescapeStringBestEffort (pre @ backslash # CHR ''u'' # rest) =
             pre @ backslash # CHR ''u'' # unescapeStringBestEffort rest"
    and "e \<notin> set (map fst simple_escapes) \<Longrightarrow> e \<noteq> CHR ''u'' \<Longrightarrow>
           unescapeStringBestEffort (pre @ backslash # e # rest) =
             pre @ backslash # e # unescapeStringBestEffort rest"
    and "unescapeStringBestEffort [backslash, CHR ''q''] = [backslash, CHR ''q'']"
proof -
  show "unescapeStringBestEffort pre = pre"
    using assms by (rule unescape_no_backslash)
  show "unescapeStringBestEffort (pre @ backslash # e # rest) =
          pre @ d # unescapeStringBestEffort rest"
    if "(e, d) \<in> set simple_escapes"
  proof -
    have "unescape_switch e rest = ([d], rest)"
      using that by (auto simp: simple_escapes_def unescape_switch_def)
    then show ?thesis using unescape_escape[OF assms, of e rest] by simp
  qed
  show "unescapeStringBestEffort (pre @ backslash # CHR ''u'' # hex @ rest) =
             pre @ string_of_rune x @ unescapeStringBestEffort rest
           \<and> utf8_code_point (string_of_rune x) =
               Some (if 0xD800 \<le> x \<and> x \<le> 0xDFFF then 0xFFFD else x)"
    if "length hex = 4" "ParseUint_16_16 hex = Some x"
  proof -
    have "unescape_switch (CHR ''u'') (hex @ rest) = (string_of_rune x, rest)"
      using that by (simp add: unescape_switch_def)
    then have "unescapeStringBestEffort (pre @ backslash # CHR ''u'' # hex @ rest) =
             pre @ string_of_rune x @ unescapeStringBestEffort rest"
      using unescape_escape[OF assms, of "CHR ''u''" "hex @ rest"] by simp
    moreover have "x < 2 ^ 16"
      using that(2) by (auto simp: ParseUint_16_16_def split: if_splits option.splits)
    ultimately show ?thesis using string_of_rune_code_point[of x] by simp
  qed
  show "unescapeStringBestEffort (pre @ backslash # CHR ''u'' # rest) =
             pre @ backslash # CHR ''u'' # unescapeStringBestEffort rest"
    if "length rest < 4 \<or> ParseUint_16_16 (take 4 rest) = None"
  proof -
    have "unescape_switch (CHR ''u'') rest = ([backslash, CHR ''u''], rest)"
      using that by (auto simp: unescape_switch_def)
    then show ?thesis using unescape_escape[OF assms, of "CHR ''u''" rest] by simp
  qed
  show "unescapeStringBestEffort (pre @ backslash # e # rest) =
             pre @ backslash # e # unescapeStringBestEffort rest"
    if "e \<notin> set (map fst simple_escapes)" "e \<noteq> CHR ''u''"
  proof -
    have "unescape_switch e rest = ([backslash, e], rest)"
      using that by (simp add: simple_escapes_def unescape_switch_def)
    then show ?thesis using unescape_escape[OF assms, of e rest] by simp
  qed
  show "unescapeStringBestEffort [backslash, CHR ''q''] = [backslash, CHR ''q'']"
    by (simp add: unescapeStringBestEffort_def unescape_switch_def)
qed


section \<open>Claims about filter evaluation\<close>

text \<open>
  Claim C9. For a string literal \<open>v\<close> and a string actual value \<open>c\<close>, the operator
  \<open>>=\<close> evaluates to \<open>c > v\<close> and the operator \<open><=\<close> to \<open>v < c\<close> in the byte-wise
  lexical order: both hold exactly when the actual string is strictly greater than the
  literal, and two equal strings satisfy neither.
\<close>

theorem supEq_infEq_on_strings_are_strict_greater:
  "Operation_check L ''>='' (IString v) (IString c) = string_less v c
   \<and> Operation_check L ''<='' (IString v) (IString c) = string_less v c
   \<and> string_less v c = ((v, c) \<in> lexord {(x, y). (of_char x :: nat) < of_char y})
   \<and> \<not> Operation_check L ''>='' (IString v) (IString v)
   \<and> \<not> Operation_check L ''<='' (IString v) (IString v)"
  by (simp add: Operation_check_def string_less_irrefl string_less_lexord)

text \<open>
  Claim C1, as the code has it. With a string literal \<open>v\<close> and a string actual value
  \<open>c\<close>, only the loose operator \<open>==\<close> is a containment test: it holds exactly when the
  literal with every quote character deleted occurs inside \<open>c\<close>. The strict operator
  \<open>===\<close> is exact equality with the literal as written, and both \<open>!==\<close> and \<open>!=\<close> hold
  exactly when \<open>c\<close> differs from the literal; neither negates the containment.
\<close>

theorem string_literal_equality_operators:
  "Operation_check L ''=='' (IString v) (IString c) = (\<exists>ps ss. c = ps @ Replace_quote v @ ss)
   \<and> Operation_check L ''==='' (IString v) (IString c) = (c = v)
   \<and> Operation_check L ''!=='' (IString v) (IString c) = (c \<noteq> v)
   \<and> Operation_check L ''!='' (IString v) (IString c) = (c \<noteq> v)"
  by (simp add: Operation_check_def Contains_iff)

text \<open>
  The claim as written fails for the literal \<open>bob\<close> against the actual value
  \<open>bob smith\<close>: the literal occurs in the actual value, yet \<open>===\<close> is false and the two
  not-equal operators are true.
\<close>

theorem strict_equal_is_not_containment:
  "Contains ''bob smith'' (Replace_quote ''bob'')
   \<and> \<not> Operation_check example_stdlib ''==='' (IString ''bob'') (IString ''bob smith'')
   \<and> Operation_check example_stdlib ''!=='' (IString ''bob'') (IString ''bob smith'')
   \<and> Operation_check example_stdlib ''!='' (IString ''bob'') (IString ''bob smith'')"
  by (simp add: Operation_check_def Replace_quote_def)

text \<open>
  Claim C5, as the code has it. When the literal \<open>b\<close> and the actual value \<open>c\<close> are
  both strings, \<open>:\<close> lower-cases both, removes every leading and trailing quote
  character from the literal (not from the actual value, and not just one layer), and
  holds exactly when the lower-cased actual value occurs inside the trimmed literal;
  \<open>!:\<close> is its negation. When either side is not a string both operators are false.
\<close>

theorem contain_operators:
  "Operation_check L '':'' (IString b) (IString c) =
     (\<exists>ps ss. TrimRight_quote (TrimLeft_quote (ToLower L b)) = ps @ ToLower L c @ ss)
   \<and> Operation_check L ''!:'' (IString b) (IString c) =
     (\<not> Operation_check L '':'' (IString b) (IString c))
   \<and> (\<exists>i j. ToLower L b =
          replicate i dquote @ TrimRight_quote (TrimLeft_quote (ToLower L b)) @ replicate j dquote)
   \<and> (TrimRight_quote (TrimLeft_quote (ToLower L b)) = []
      \<or> (hd (TrimRight_quote (TrimLeft_quote (ToLower L b))) \<noteq> dquote
         \<and> last (TrimRight_quote (TrimLeft_quote (ToLower L b))) \<noteq> dquote))
   \<and> ((\<forall>s. base \<noteq> IString s) \<or> (\<forall>s. compared \<noteq> IString s) \<longrightarrow>
        \<not> Operation_check L '':'' base compared \<and> \<not> Operation_check L ''!:'' base compared)"
proof -
  define x where "x = ToLower L b"
  obtain i where i: "x = replicate i dquote @ TrimLeft_quote x"
    and hi: "TrimLeft_quote x = [] \<or> hd (TrimLeft_quote x) \<noteq> dquote"
    using TrimLeft_quote_spec[of x] by blast
  obtain j where j: "TrimLeft_quote x = TrimRight_quote (TrimLeft_quote x) @ replicate j dquote"
    and hj: "TrimRight_quote (TrimLeft_quote x) = [] \<or> last (TrimRight_quote (TrimLeft_quote x)) \<noteq> dquote"
    using TrimRight_quote_spec[of "TrimLeft_quote x"] by blast
  have shape: "\<exists>i j. x = replicate i dquote @ TrimRight_quote (TrimLeft_quote x) @ replicate j dquote"
    using i j by metis
  have ends: "TrimRight_quote (TrimLeft_quote x) = []
      \<or> (hd (TrimRight_quote (TrimLeft_quote x)) \<noteq> dquote \<and> last (TrimRight_quote (TrimLeft_quote x)) \<noteq> dquote)"
  proof (cases "TrimRight_quote (TrimLeft_quote x) = []")
    case True
    then show ?thesis by simp
  next
    case False
    then have "hd (TrimLeft_quote x) = hd (TrimRight_quote (TrimLeft_quote x))"
      using j by (metis hd_append2)
    moreover have "TrimLeft_quote x \<noteq> []" using False j by auto
    ultimately show ?thesis using hi hj False by auto
  qed
  have nonstr: "(\<forall>s. base \<noteq> IString s) \<or> (\<forall>s. compared \<noteq> IString s) \<longrightarrow>
        \<not> Operation_check L '':'' base compared \<and> \<not> Operation_check L ''!:'' base compared"
    by (cases base; cases compared; simp add: Operation_check_def)
  show ?thesis
    using shape ends nonstr unfolding x_def
    by (simp add: Operation_check_def Contains_iff)
qed

theorem contain_operators_witness:
  "((\<forall>s. IInt64 7 \<noteq> IString s) \<or> (\<forall>s. IString ''7'' \<noteq> IString s))
   \<and> \<not> Operation_check example_stdlib '':'' (IInt64 7) (IString ''7'')
   \<and> \<not> Operation_check example_stdlib ''!:'' (IInt64 7) (IString ''7'')"
proof -
  note t = contain_operators [where L = example_stdlib and b = "''b''" and c = "''c''"
      and base = "IInt64 7" and compared = "IString ''7''"]
  have h: "(\<forall>s. IInt64 7 \<noteq> IString s) \<or> (\<forall>s. IString ''7'' \<noteq> IString s)"
    by simp
  from t have "((\<forall>s. IInt64 7 \<noteq> IString s) \<or> (\<forall>s. IString ''7'' \<noteq> IString s)) \<longrightarrow>
      \<not> Operation_check example_stdlib '':'' (IInt64 7) (IString ''7'')
      \<and> \<not> Operation_check example_stdlib ''!:'' (IInt64 7) (IString ''7'')"
    by (elim conjE)
  with h show ?thesis by simp
qed

text \<open>
  The claim as written fails for the literal \<open>a\<close> against the actual value \<open>"a"\<close>
  (with its quotes). Stripping one layer of quotes from the actual value leaves \<open>a\<close>,
  which contains the literal and is contained in it, so the claim makes \<open>:\<close> true in
  either direction of containment; the code trims the literal instead, looks for
  \<open>"a"\<close> inside \<open>a\<close>, and answers false.
\<close>

definition strip_one_quote_layer :: "string \<Rightarrow> string" where
  "strip_one_quote_layer s =
     (let s1 = (case s of [] \<Rightarrow> [] | c # cs \<Rightarrow> if c = dquote then cs else s)
      in if s1 \<noteq> [] \<and> last s1 = dquote then butlast s1 else s1)"

theorem contain_strips_literal_not_actual:
  "Contains (strip_one_quote_layer (ascii_ToLower [dquote, CHR ''a'', dquote])) (ascii_ToLower ''a'')
   \<and> Contains (ascii_ToLower ''a'') (strip_one_quote_layer (ascii_ToLower [dquote, CHR ''a'', dquote]))
   \<and> \<not> Operation_check example_stdlib '':'' (IString ''a'') (IString [dquote, CHR ''a'', dquote])
   \<and> Operation_check example_stdlib ''!:'' (IString ''a'') (IString [dquote, CHR ''a'', dquote])"
  by (simp add: Operation_check_def example_stdlib_def ascii_ToLower_def strip_one_quote_layer_def
        TrimLeft_quote_def TrimRight_quote_def)

text \<open>
  Claim C4. With an integer or a float literal, \<open>===\<close> evaluates exactly as \<open>==\<close> and
  \<open>!==\<close> exactly as \<open>!=\<close>, whatever the actual value. An integer and a float are compared
  after widening the integer to \<open>float64\<close>, so an integer literal equals every float
  actual value with the same numeric value, and a float literal every such integer.
\<close>

theorem numeric_literals_strict_is_loose_and_widen:
  "Operation_check L ''==='' (IInt64 i) actual = Operation_check L ''=='' (IInt64 i) actual
   \<and> Operation_check L ''!=='' (IInt64 i) actual = Operation_check L ''!='' (IInt64 i) actual
   \<and> Operation_check L ''==='' (IFloat64 f) actual = Operation_check L ''=='' (IFloat64 f) actual
   \<and> Operation_check L ''!=='' (IFloat64 f) actual = Operation_check L ''!='' (IFloat64 f) actual
   \<and> Operation_check L ''=='' (IInt64 i) (IFloat64 c) = f64_eq c (int64_to_float64 i)
   \<and> Operation_check L ''=='' (IFloat64 c) (IInt64 i) = f64_eq (int64_to_float64 i) c
   \<and> (is_binary64 c \<and> f64_val c = Some (of_int (sint i)) \<longrightarrow>
        Operation_check L ''=='' (IInt64 i) (IFloat64 c)
        \<and> Operation_check L ''=='' (IFloat64 c) (IInt64 i)
        \<and> \<not> Operation_check L ''!='' (IInt64 i) (IFloat64 c)
        \<and> \<not> Operation_check L ''!='' (IFloat64 c) (IInt64 i))"
  using int_float_equal [of c i]
  by (simp add: Operation_check_def f64_ne_def)

theorem numeric_literals_witness:
  "is_binary64 (FFin False 9 1) \<and> f64_val (FFin False 9 1) = Some (of_int (sint (18 :: 64 word)))
   \<and> Operation_check example_stdlib ''=='' (IInt64 18) (IFloat64 (FFin False 9 1))
   \<and> Operation_check example_stdlib ''=='' (IFloat64 (FFin False 9 1)) (IInt64 18)
   \<and> \<not> Operation_check example_stdlib ''!='' (IInt64 18) (IFloat64 (FFin False 9 1))
   \<and> \<not> Operation_check example_stdlib ''!='' (IFloat64 (FFin False 9 1)) (IInt64 18)"
proof -
  note t = numeric_literals_strict_is_loose_and_widen
         [where L = example_stdlib and i = 18 and c = "FFin False 9 1" and f = "FFin False 9 1"
            and actual = "IInt64 18"]
  have h: "is_binary64 (FFin False 9 1) \<and> f64_val (FFin False 9 1) = Some (of_int (sint (18 :: 64 word)))"
    by (simp add: signed_mant_def)
  from t have "is_binary64 (FFin False 9 1) \<and> f64_val (FFin False 9 1) = Some (of_int (sint (18 :: 64 word)))
      \<longrightarrow> Operation_check example_stdlib ''=='' (IInt64 18) (IFloat64 (FFin False 9 1))
        \<and> Operation_check example_stdlib ''=='' (IFloat64 (FFin False 9 1)) (IInt64 18)
        \<and> \<not> Operation_check example_stdlib ''!='' (IInt64 18) (IFloat64 (FFin False 9 1))
        \<and> \<not> Operation_check example_stdlib ''!='' (IFloat64 (FFin False 9 1)) (IInt64 18)"
    by (elim conjE)
  with h show ?thesis by simp
qed



section \<open>Claims about the value tree and the lexer\<close>

text \<open>
  Claim C7, as the code has it. Text without a backslash is returned as it is. After a
  backslash-free prefix, each of the eight escapes (quote, backslash, slash, b, f, n, r, t)
  is replaced by its character, and u followed by four hexadecimal digits by the UTF-8
  bytes of that code point, except that a value in the surrogate range D800 to DFFF is
  replaced by U+FFFD. A u with fewer than four bytes after it or with a byte that is no
  hexadecimal digit, and an unknown escape letter, are copied as the backslash and the
  escape character. In each case the text after the escape is unescaped in the same way,
  no case reports an error, and backslash q decodes to the two characters backslash q.
\<close>

theorem unescape_replaces_escapes:
  "backslash \<notin> set pre \<longrightarrow>
     unescapeStringBestEffort pre = pre
     \<and> ((e, d) \<in> set simple_escapes \<longrightarrow>
           unescapeStringBestEffort (pre @ backslash # e # rest1) =
             pre @ d # unescapeStringBestEffort rest1)
     \<and> (length hex = 4 \<and> ParseUint_16_16 hex = Some x \<longrightarrow>
           unescapeStringBestEffort (pre @ backslash # CHR ''u'' # hex @ rest2) =
             pre @ string_of_rune x @ unescapeStringBestEffort rest2
           \<and> utf8_code_point (string_of_rune x) =
               Some (if 0xD800 \<le> x \<and> x \<le> 0xDFFF then 0xFFFD else x))
     \<and> (length rest3 < 4 \<or> ParseUint_16_16 (take 4 rest3) = None \<longrightarrow>
           unescapeStringBestEffort (pre @ backslash # CHR ''u'' # rest3) =
             pre @ backslash # CHR ''u'' # unescapeStringBestEffort rest3)
     \<and> (e' \<notin> set (map fst simple_escapes) \<and> e' \<noteq> CHR ''u'' \<longrightarrow>
           unescapeStringBestEffort (pre @ backslash # e' # rest4) =
             pre @ backslash # e' # unescapeStringBestEffort rest4)
     \<and> unescapeStringBestEffort [backslash, CHR ''q''] = [backslash, CHR ''q'']"
proof
  assume p: "backslash \<notin> set pre"
  note c = unescape_cases[OF p]
  have 1: "unescapeStringBestEffort pre = pre" by (rule c(1))
  have 2: "(e, d) \<in> set simple_escapes \<longrightarrow>
           unescapeStringBestEffort (pre @ backslash # e # rest1) =
             pre @ d # unescapeStringBestEffort rest1"
    using c(2) by simp
  have 3: "length hex = 4 \<and> ParseUint_16_16 hex = Some x \<longrightarrow>
           unescapeStringBestEffort (pre @ backslash # CHR ''u'' # hex @ rest2) =
             pre @ string_of_rune x @ unescapeStringBestEffort rest2
           \<and> utf8_code_point (string_of_rune x) =
               Some (if 0xD800 \<le> x \<and> x \<le> 0xDFFF then 0xFFFD else x)"
    using c(3)[of hex x rest2] by simp
  have 4: "length rest3 < 4 \<or> ParseUint_16_16 (take 4 rest3) = None \<longrightarrow>
           unescapeStringBestEffort (pre @ backslash # CHR ''u'' # rest3) =
             pre @ backslash # CHR ''u'' # unescapeStringBestEffort rest3"
    using c(4)[of rest3] by simp
  have 5: "e' \<notin> set (map fst simple_escapes) \<and> e' \<noteq> CHR ''u'' \<longrightarrow>
           unescapeStringBestEffort (pre @ backslash # e' # rest4) =
             pre @ backslash # e' # unescapeStringBestEffort rest4"
    using c(5)[of e' rest4] by simp
  from 1 2 3 4 5 c(6) show "unescapeStringBestEffort pre = pre
     \<and> ((e, d) \<in> set simple_escapes \<longrightarrow>
           unescapeStringBestEffort (pre @ backslash # e # rest1) =
             pre @ d # unescapeStringBestEffort rest1)
     \<and> (length hex = 4 \<and> ParseUint_16_16 hex = Some x \<longrightarrow>
           unescapeStringBestEffort (pre @ backslash # CHR ''u'' # hex @ rest2) =
             pre @ string_of_rune x @ unescapeStringBestEffort rest2
           \<and> utf8_code_point (string_of_rune x) =
               Some (if 0xD800 \<le> x \<and> x \<le> 0xDFFF then 0xFFFD else x))
     \<and> (length rest3 < 4 \<or> ParseUint_16_16 (take 4 rest3) = None \<longrightarrow>
           unescapeStringBestEffort (pre @ backslash # CHR ''u'' # rest3) =
             pre @ backslash # CHR ''u'' # unescapeStringBestEffort rest3)
     \<and> (e' \<notin> set (map fst simple_escapes) \<and> e' \<noteq> CHR ''u'' \<longrightarrow>
           unescapeStringBestEffort (pre @ backslash # e' # rest4) =
             pre @ backslash # e' # unescapeStringBestEffort rest4)
     \<and> unescapeStringBestEffort [backslash, CHR ''q''] = [backslash, CHR ''q'']"
    by (intro conjI)
qed

lemma ParseUint_0041: "ParseUint_16_16 ''0041'' = Some 65"
  by (simp add: ParseUint_16_16_def hex_digit_def)

lemma ParseUint_12G4: "ParseUint_16_16 ''12G4'' = None"
  by (simp add: ParseUint_16_16_def hex_digit_def)

theorem unescape_replaces_escapes_witness:
  "backslash \<notin> set ''a''
   \<and> (CHR ''n'', CHR 0x0A) \<in> set simple_escapes
   \<and> unescapeStringBestEffort (''a'' @ backslash # CHR ''n'' # ''b'') = ''a'' @ CHR 0x0A # ''b''
   \<and> length ''0041'' = 4 \<and> ParseUint_16_16 ''0041'' = Some 65
   \<and> unescapeStringBestEffort (''a'' @ backslash # CHR ''u'' # ''0041'' @ ''b'') = ''aAb''
   \<and> ParseUint_16_16 (take 4 ''12G4'') = None
   \<and> unescapeStringBestEffort (''a'' @ backslash # CHR ''u'' # ''12G4'') = ''a'' @ backslash # ''u12G4''
   \<and> CHR ''q'' \<notin> set (map fst simple_escapes) \<and> CHR ''q'' \<noteq> CHR ''u''
   \<and> unescapeStringBestEffort (''a'' @ backslash # CHR ''q'' # ''b'') = ''a'' @ backslash # ''qb''"
proof -
  note t = unescape_replaces_escapes [where pre = "''a''" and e = "CHR ''n''" and d = "CHR 0x0A"
      and ?rest1.0 = "''b''" and hex = "''0041''" and x = 65 and ?rest2.0 = "''b''"
      and ?rest3.0 = "''12G4''" and e' = "CHR ''q''" and ?rest4.0 = "''b''"]
  have h: "backslash \<notin> set ''a''" "(CHR ''n'', CHR 0x0A) \<in> set simple_escapes"
    "length ''0041'' = 4 \<and> ParseUint_16_16 ''0041'' = Some 65"
    "length ''12G4'' < 4 \<or> ParseUint_16_16 (take 4 ''12G4'') = None"
    "CHR ''q'' \<notin> set (map fst simple_escapes) \<and> CHR ''q'' \<noteq> CHR ''u''"
    by (simp_all add: simple_escapes_def ParseUint_0041 ParseUint_12G4)
  have b: "unescapeStringBestEffort ''b'' = ''b''" "unescapeStringBestEffort ''12G4'' = ''12G4''"
    by (simp_all add: unescapeStringBestEffort_def)
  have r: "string_of_rune 65 = ''A''"
    by (simp add: string_of_rune_def char_of_def bit_0)
  note c = t[THEN mp, OF h(1)]
  note c2 = c[THEN conjunct2, THEN conjunct1, THEN mp, OF h(2)]
  note c3 = c[THEN conjunct2, THEN conjunct2, THEN conjunct1, THEN mp, OF h(3), THEN conjunct1]
  note c4 = c[THEN conjunct2, THEN conjunct2, THEN conjunct2, THEN conjunct1, THEN mp, OF h(4)]
  note c5 = c[THEN conjunct2, THEN conjunct2, THEN conjunct2, THEN conjunct2, THEN conjunct1,
      THEN mp, OF h(5)]
  have e1: "unescapeStringBestEffort (''a'' @ backslash # CHR ''n'' # ''b'') = ''a'' @ CHR 0x0A # ''b''"
    using c2 b(1) by simp
  have e2: "unescapeStringBestEffort (''a'' @ backslash # CHR ''u'' # ''0041'' @ ''b'') = ''aAb''"
    using c3 b(1) r by simp
  have e3: "unescapeStringBestEffort (''a'' @ backslash # CHR ''u'' # ''12G4'') = ''a'' @ backslash # ''u12G4''"
    using c4 b(2) by simp
  have e4: "unescapeStringBestEffort (''a'' @ backslash # CHR ''q'' # ''b'') = ''a'' @ backslash # ''qb''"
    using c5 b(1) by simp
  have h4: "ParseUint_16_16 (take 4 ''12G4'') = None" by (simp add: ParseUint_12G4)
  from h(1,2) e1 h(3) e2 h4 e3 h(5) e4 show ?thesis by simp
qed

text \<open>
  The claim as written fails at the escape \<open>\ud800\<close>: its four hexadecimal digits are
  the value D800, and the text produced is the three bytes EF BF BD, which are the code
  point FFFD and not D800.
\<close>

theorem unescape_surrogate_becomes_FFFD:
  "ParseUint_16_16 ''d800'' = Some 0xD800
   \<and> unescapeStringBestEffort (backslash # ''ud800'') = [CHR 0xEF, CHR 0xBF, CHR 0xBD]
   \<and> utf8_code_point [CHR 0xEF, CHR 0xBF, CHR 0xBD] = Some 0xFFFD
   \<and> (0xFFFD :: nat) \<noteq> 0xD800"
proof -
  have p: "ParseUint_16_16 ''d800'' = Some 0xD800"
    by (simp add: ParseUint_16_16_def hex_digit_def)
  have "unescape_switch (CHR ''u'') ''d800'' = ([CHR 0xEF, CHR 0xBF, CHR 0xBD], [])"
    by (simp add: unescape_switch_def p string_of_rune_def)
  then have u: "unescapeStringBestEffort (backslash # ''ud800'') = [CHR 0xEF, CHR 0xBF, CHR 0xBD]"
    by (simp add: unescapeStringBestEffort_def)
  have d: "utf8_code_point [CHR 0xEF, CHR 0xBF, CHR 0xBD] = Some 0xFFFD"
    by (simp add: utf8_code_point_def)
  from p u d show ?thesis by simp
qed

text \<open>
  Claim C6. The first call of \<open>Type\<close> on a node turns a raw tag into its decoded tag
  (\<open>typeRawString\<close> into \<open>TypeString\<close> with the text unescaped, \<open>typeRawNumber\<close> into
  \<open>TypeNumber\<close> with the number parsed) and leaves every other node as it is. The tag
  returned is the tag the node then has and is never a raw tag, so a later call finds
  nothing to decode: it returns the same tag and leaves the node, decoded content
  included, unchanged, however often it is repeated.
\<close>

theorem Type_decodes_once:
  "Value_t (fst (Value_Type L v)) = snd (Value_Type L v)
   \<and> snd (Value_Type L v) \<noteq> typeRawString \<and> snd (Value_Type L v) \<noteq> typeRawNumber
   \<and> (Value_t v = typeRawString \<longrightarrow>
        Value_Type L v =
          (Value (Value_o v) (Value_a v) (unescapeStringBestEffort (Value_s v)) (Value_n v)
             TypeString, TypeString))
   \<and> (Value_t v = typeRawNumber \<longrightarrow>
        Value_Type L v =
          (Value (Value_o v) (Value_a v) (Value_s v)
             (case ParseFloat L (Value_s v) of None \<Rightarrow> f64_zero | Some f \<Rightarrow> f) TypeNumber,
           TypeNumber))
   \<and> (Value_t v \<noteq> typeRawString \<and> Value_t v \<noteq> typeRawNumber \<longrightarrow>
        Value_Type L v = (v, Value_t v))
   \<and> Value_Type L' (fst (Value_Type L v)) = Value_Type L v
   \<and> Type_repeated L k v = Value_Type L v"
proof -
  have once: "Value_Type L' (fst (Value_Type L v)) = Value_Type L v" for L' v
    by (cases "Value_t v") (simp_all add: Value_Type_def Let_def)
  have rep: "Type_repeated L k v = Value_Type L v"
  proof (induction k arbitrary: v)
    case 0
    show ?case by simp
  next
    case (Suc k)
    have "Type_repeated L (Suc k) v = Value_Type L (fst (Value_Type L v))"
      by (simp add: Suc)
    then show ?case by (simp only: once)
  qed
  have tags: "Value_t (fst (Value_Type L v)) = snd (Value_Type L v)
      \<and> snd (Value_Type L v) \<noteq> typeRawString \<and> snd (Value_Type L v) \<noteq> typeRawNumber"
    by (cases "Value_t v") (simp_all add: Value_Type_def Let_def)
  have other: "Value_t v \<noteq> typeRawString \<and> Value_t v \<noteq> typeRawNumber \<longrightarrow>
        Value_Type L v = (v, Value_t v)"
    by (cases "Value_t v") (simp_all add: Value_Type_def)
  show ?thesis
    using once[of L' v] rep tags other by (simp add: Value_Type_def Let_def)
qed

theorem Type_decodes_once_witness:
  "Value_t (Value [] [] [backslash, backslash, CHR ''n''] f64_zero typeRawString) = typeRawString
   \<and> Value_Type example_stdlib (Value [] [] [backslash, backslash, CHR ''n''] f64_zero typeRawString)
       = (Value [] [] [backslash, CHR ''n''] f64_zero TypeString, TypeString)
   \<and> Value_Type example_stdlib
         (fst (Value_Type example_stdlib
                 (Value [] [] [backslash, backslash, CHR ''n''] f64_zero typeRawString)))
       = (Value [] [] [backslash, CHR ''n''] f64_zero TypeString, TypeString)
   \<and> unescapeStringBestEffort [backslash, CHR ''n''] = [CHR 0x0A]"
proof -
  note t = Type_decodes_once [where L = example_stdlib and L' = example_stdlib and k = 0
      and v = "Value [] [] [backslash, backslash, CHR ''n''] f64_zero typeRawString"]
  have h: "Value_t (Value [] [] [backslash, backslash, CHR ''n''] f64_zero typeRawString) = typeRawString"
    by simp
  have u: "unescapeStringBestEffort [backslash, backslash, CHR ''n''] = [backslash, CHR ''n'']"
    "unescapeStringBestEffort [backslash, CHR ''n''] = [CHR 0x0A]"
    by (simp_all add: unescapeStringBestEffort_def unescape_switch_def)
  note first = t[THEN conjunct2, THEN conjunct2, THEN conjunct2, THEN conjunct1, THEN mp, OF h]
  note again = t[THEN conjunct2, THEN conjunct2, THEN conjunct2, THEN conjunct2, THEN conjunct2,
      THEN conjunct2, THEN conjunct1]
  have f: "Value_Type example_stdlib (Value [] [] [backslash, backslash, CHR ''n''] f64_zero typeRawString)
       = (Value [] [] [backslash, CHR ''n''] f64_zero TypeString, TypeString)"
    using first u(1) by simp
  from h f again u(2) show ?thesis by simp
qed

text \<open>
  Claim C8. On a nonempty text (the caller ensures it, as the function's comment asks)
  \<open>parseRawNumber\<close> returns the longest prefix made of the characters 0-9, \<open>-\<close>, \<open>.\<close>,
  \<open>e\<close>, \<open>E\<close>, \<open>+\<close> together with the rest, without looking at the number grammar; when
  the first character is none of these the prefix is empty and the result is an error.
  A raw number whose lexeme \<open>ParseFloat\<close> rejects becomes the number 0 at its first
  \<open>Type\<close> call, and no error is reported. The lexer accepts \<open>--1\<close> and \<open>1.2.3\<close> whole.
\<close>

theorem parseRawNumber_lexes_without_grammar:
  "(s \<noteq> [] \<and> is_number_char (hd s) \<longrightarrow>
      parseRawNumber s = Inr (takeWhile is_number_char s, dropWhile is_number_char s)
      \<and> takeWhile is_number_char s \<noteq> [])
   \<and> (s \<noteq> [] \<and> \<not> is_number_char (hd s) \<longrightarrow>
      takeWhile is_number_char s = []
      \<and> parseRawNumber s = Inl (Errorf ''unexpected char: %q'' [take 1 s]))
   \<and> (Value_t v = typeRawNumber \<and> ParseFloat L (Value_s v) = None \<longrightarrow>
      Value_Type L v = (Value (Value_o v) (Value_a v) (Value_s v) f64_zero TypeNumber, TypeNumber))
   \<and> parseRawNumber ''--1'' = Inr (''--1'', [])
   \<and> parseRawNumber ''1.2.3'' = Inr (''1.2.3'', [])"
proof -
  have run: "parseRawNumber s =
     (if s \<noteq> [] \<and> takeWhile is_number_char s = []
      then Inl (Errorf ''unexpected char: %q'' [take 1 s])
      else Inr (takeWhile is_number_char s, dropWhile is_number_char s))" for s
    unfolding parseRawNumber_def by (rule parseRawNumber_from_run) simp_all
  have a: "s \<noteq> [] \<and> is_number_char (hd s) \<longrightarrow>
      parseRawNumber s = Inr (takeWhile is_number_char s, dropWhile is_number_char s)
      \<and> takeWhile is_number_char s \<noteq> []"
    by (cases s) (simp_all add: run)
  have b: "s \<noteq> [] \<and> \<not> is_number_char (hd s) \<longrightarrow>
      takeWhile is_number_char s = []
      \<and> parseRawNumber s = Inl (Errorf ''unexpected char: %q'' [take 1 s])"
    by (cases s) (simp_all add: run)
  have c: "Value_t v = typeRawNumber \<and> ParseFloat L (Value_s v) = None \<longrightarrow>
      Value_Type L v = (Value (Value_o v) (Value_a v) (Value_s v) f64_zero TypeNumber, TypeNumber)"
    by (simp add: Value_Type_def)
  have d: "parseRawNumber ''--1'' = Inr (''--1'', [])"
    "parseRawNumber ''1.2.3'' = Inr (''1.2.3'', [])"
    by (simp_all add: run is_number_char_def)
  from a b c d show ?thesis by (intro conjI)
qed

theorem parseRawNumber_lexes_without_grammar_witness:
  "''--1'' \<noteq> [] \<and> is_number_char (hd ''--1'')
   \<and> parseRawNumber ''--1'' = Inr (''--1'', [])
   \<and> Value_t (Value [] [] ''--1'' f64_zero typeRawNumber) = typeRawNumber
   \<and> ParseFloat example_stdlib (Value_s (Value [] [] ''--1'' f64_zero typeRawNumber)) = None
   \<and> Value_Type example_stdlib (Value [] [] ''--1'' f64_zero typeRawNumber)
       = (Value [] [] ''--1'' f64_zero TypeNumber, TypeNumber)
   \<and> ParseFloat example_stdlib ''1.2.3'' = None"
proof -
  note t = parseRawNumber_lexes_without_grammar [where s = "''--1''" and L = example_stdlib
      and v = "Value [] [] ''--1'' f64_zero typeRawNumber"]
  have h1: "''--1'' \<noteq> [] \<and> is_number_char (hd ''--1'')"
    by (simp add: is_number_char_def)
  have p: "decimal_ParseFloat ''--1'' = None" "decimal_ParseFloat ''1.2.3'' = None"
    by (simp_all add: decimal_ParseFloat_def split_sign_def is_digit_def)
  have h2: "Value_t (Value [] [] ''--1'' f64_zero typeRawNumber) = typeRawNumber
      \<and> ParseFloat example_stdlib (Value_s (Value [] [] ''--1'' f64_zero typeRawNumber)) = None"
    by (simp add: example_stdlib_def p)
  note lex = t[THEN conjunct2, THEN conjunct2, THEN conjunct2, THEN conjunct1]
  note dec = t[THEN conjunct2, THEN conjunct2, THEN conjunct1, THEN mp, OF h2]
  have q: "ParseFloat example_stdlib ''1.2.3'' = None" by (simp add: example_stdlib_def p)
  from h1 lex h2 dec q show ?thesis by simp
qed

text \<open>
  Claim C10. \<open>Get\<close> never panics. It returns nil for a nil receiver; with no keys left
  it returns the node it is at; at an object it continues in the value of the first pair
  with the key and returns nil when no pair has it; at an array it returns nil when the key
  is no decimal integer, is negative or is not below the length, and otherwise continues
  in that element; at any other node with a key left it returns nil.
\<close>

theorem Get_total_and_nil_on_miss:
  "Get None keys = Inr None
   \<and> Get (Some v) [] = Inr (Some v)
   \<and> (Value_t v = TypeObject \<longrightarrow>
        Get (Some v) (k # keys) =
          (case map_of (Value_o v) k of None \<Rightarrow> Inr None | Some c \<Rightarrow> Get (Some c) keys))
   \<and> (Value_t v = TypeArray \<longrightarrow>
        Get (Some v) (k # keys) =
          (case Atoi k of
             None \<Rightarrow> Inr None
           | Some n \<Rightarrow> if n < 0 \<or> int (length (Value_a v)) \<le> n then Inr None
                       else Get (Some (Value_a v ! nat n)) keys))
   \<and> (Value_t v \<noteq> TypeObject \<and> Value_t v \<noteq> TypeArray \<longrightarrow> Get (Some v) (k # keys) = Inr None)
   \<and> (\<exists>res. Get r keys = Inr res)"
proof -
  have obj: "Value_t v = TypeObject \<longrightarrow>
        Get (Some v) (k # keys) =
          (case map_of (Value_o v) k of None \<Rightarrow> Inr None | Some c \<Rightarrow> Get (Some c) keys)"
    by (simp add: Object_Get_def)
  have arr: "Value_t v = TypeArray \<longrightarrow>
        Get (Some v) (k # keys) =
          (case Atoi k of
             None \<Rightarrow> Inr None
           | Some n \<Rightarrow> if n < 0 \<or> int (length (Value_a v)) \<le> n then Inr None
                       else Get (Some (Value_a v ! nat n)) keys)"
    by (simp add: go_index_def split: option.split)
  have other: "Value_t v \<noteq> TypeObject \<and> Value_t v \<noteq> TypeArray \<longrightarrow> Get (Some v) (k # keys) = Inr None"
    by (cases "Value_t v") simp_all
  have total: "\<exists>res. Get r keys = Inr res"
    using Get_no_panic[of r keys] by (cases "Get r keys") auto
  from obj arr other total show ?thesis by simp
qed

definition example_tree :: Value where
  "example_tree =
     Value [(''a'', Value [] [Value [] [] ''10'' f64_zero typeRawNumber,
                             Value [] [] ''20'' f64_zero typeRawNumber] [] f64_zero TypeArray)]
           [] [] f64_zero TypeObject"

theorem Get_total_and_nil_on_miss_witness:
  "Value_t example_tree = TypeObject
   \<and> Get (Some example_tree) [''a'', ''1''] = Inr (Some (Value [] [] ''20'' f64_zero typeRawNumber))
   \<and> Get (Some example_tree) [''b'', ''1''] = Inr None
   \<and> Get (Some example_tree) [''a'', ''2''] = Inr None
   \<and> Get (Some example_tree) [''a'', ''-1''] = Inr None
   \<and> Get (Some example_tree) [''a'', ''x''] = Inr None
   \<and> Get (Some example_tree) [''a'', ''1'', ''z''] = Inr None"
proof -
  note t = Get_total_and_nil_on_miss [where v = example_tree and k = "''a''" and keys = "[''1'']"]
  have h: "Value_t example_tree = TypeObject" by (simp add: example_tree_def)
  note step = t[THEN conjunct2, THEN conjunct2, THEN conjunct1, THEN mp, OF h]
  have at: "Atoi ''1'' = Some 1" "Atoi ''2'' = Some 2" "Atoi ''-1'' = Some (- 1)" "Atoi ''x'' = None"
    by (simp_all add: Atoi_def split_sign_def is_digit_def digits_val_def)
  have g1: "Get (Some example_tree) [''a'', ''1''] = Inr (Some (Value [] [] ''20'' f64_zero typeRawNumber))"
    using step by (simp add: example_tree_def Object_Get_def go_index_def at)
  have rest: "Get (Some example_tree) [''b'', ''1''] = Inr None"
    "Get (Some example_tree) [''a'', ''2''] = Inr None"
    "Get (Some example_tree) [''a'', ''-1''] = Inr None"
    "Get (Some example_tree) [''a'', ''x''] = Inr None"
    "Get (Some example_tree) [''a'', ''1'', ''z''] = Inr None"
    by (simp_all add: example_tree_def Object_Get_def go_index_def at)
  from h g1 rest show ?thesis by simp
qed


section \<open>Facts about the outer shape of a query\<close>

text \<open>
  The texts that \<open>cmdRegex\<close> matches, read off the pattern: a name of the characters
  \<open>a-z\<close> and \<open>_\<close> (possibly empty), then nothing or a parenthesis around a text without
  brackets, then the children between a pair of braces, with no line feed among them.
\<close>

lemma cmdRegex_filters_Some_iff:
  "cmdRegex_filters r1 = Some (fs, r2) \<longleftrightarrow>
     (fs = [] \<and> r2 = r1 \<and> (r1 = [] \<or> hd r1 \<noteq> CHR ''(''))
     \<or> (r1 = CHR ''('' # fs @ CHR '')'' # r2 \<and> list_all (\<lambda>c. \<not> is_bracket c) fs)"
proof (cases r1)
  case Nil
  then show ?thesis by (auto simp: cmdRegex_filters_def)
next
  case (Cons c cs)
  show ?thesis
  proof (cases "c = CHR ''(''")
    case False
    then show ?thesis using Cons by (auto simp: cmdRegex_filters_def)
  next
    case True
    have split: "cs = takeWhile (\<lambda>c. \<not> is_bracket c) cs @ dropWhile (\<lambda>c. \<not> is_bracket c) cs"
      by simp
    have allt: "list_all (\<lambda>c. \<not> is_bracket c) (takeWhile (\<lambda>c. \<not> is_bracket c) cs)"
      by (auto simp: list_all_iff dest: set_takeWhileD)
    show ?thesis
    proof
      assume "cmdRegex_filters r1 = Some (fs, r2)"
      then have d: "dropWhile (\<lambda>c. \<not> is_bracket c) cs = CHR '')'' # r2"
        and f: "fs = takeWhile (\<lambda>c. \<not> is_bracket c) cs"
        using Cons True by (auto simp: cmdRegex_filters_def split: list.splits if_splits)
      have "cs = fs @ CHR '')'' # r2" using split d f by simp
      then show "(fs = [] \<and> r2 = r1 \<and> (r1 = [] \<or> hd r1 \<noteq> CHR ''(''))
          \<or> (r1 = CHR ''('' # fs @ CHR '')'' # r2 \<and> list_all (\<lambda>c. \<not> is_bracket c) fs)"
        using Cons True allt f by simp
    next
      assume "(fs = [] \<and> r2 = r1 \<and> (r1 = [] \<or> hd r1 \<noteq> CHR ''(''))
          \<or> (r1 = CHR ''('' # fs @ CHR '')'' # r2 \<and> list_all (\<lambda>c. \<not> is_bracket c) fs)"
      then have eq: "cs = fs @ CHR '')'' # r2" and all: "list_all (\<lambda>c. \<not> is_bracket c) fs"
        using Cons True by auto
      have nb: "\<And>x. x \<in> set fs \<Longrightarrow> \<not> is_bracket x" using all by (simp add: list_all_iff)
      have "takeWhile (\<lambda>c. \<not> is_bracket c) (fs @ CHR '')'' # r2) = fs"
        using nb by (simp add: takeWhile_append2 is_bracket_def)
      moreover have "dropWhile (\<lambda>c. \<not> is_bracket c) (fs @ CHR '')'' # r2) = CHR '')'' # r2"
        using nb by (simp add: dropWhile_append2 is_bracket_def)
      ultimately show "cmdRegex_filters r1 = Some (fs, r2)"
        using Cons True eq by (simp add: cmdRegex_filters_def)
    qed
  qed
qed

lemma cmdRegex_matches_iff:
  "cmdRegex_FindStringSubmatch cmd \<noteq> [] \<longleftrightarrow>
     (\<exists>name grp children.
        cmd = name @ grp @ CHR ''{'' # children @ [CHR ''}'']
        \<and> list_all is_name_char name
        \<and> (grp = [] \<or> (\<exists>fs. grp = CHR ''('' # fs @ [CHR '')''] \<and> list_all (\<lambda>c. \<not> is_bracket c) fs))
        \<and> CHR 0x0A \<notin> set children)"
proof
  assume m: "cmdRegex_FindStringSubmatch cmd \<noteq> []"
  define name where "name = takeWhile is_name_char cmd"
  define r1 where "r1 = dropWhile is_name_char cmd"
  have cmd: "cmd = name @ r1" by (simp add: name_def r1_def)
  have nm: "list_all is_name_char name"
    by (auto simp: name_def list_all_iff dest: set_takeWhileD)
  obtain fs r2 where f: "cmdRegex_filters r1 = Some (fs, r2)"
    using m by (auto simp: cmdRegex_FindStringSubmatch_def r1_def split: option.splits)
  then obtain body where b: "r2 = CHR ''{'' # body" "body \<noteq> []" "last body = CHR ''}''"
      "CHR 0x0A \<notin> set (butlast body)"
    using m by (auto simp: cmdRegex_FindStringSubmatch_def r1_def split: list.splits if_splits)
  have body: "body = butlast body @ [CHR ''}'']" using b(2,3) by (metis append_butlast_last_id)
  from f consider "fs = []" "r2 = r1" | "r1 = CHR ''('' # fs @ CHR '')'' # r2" "list_all (\<lambda>c. \<not> is_bracket c) fs"
    unfolding cmdRegex_filters_Some_iff by blast
  then show "\<exists>name grp children.
        cmd = name @ grp @ CHR ''{'' # children @ [CHR ''}'']
        \<and> list_all is_name_char name
        \<and> (grp = [] \<or> (\<exists>fs. grp = CHR ''('' # fs @ [CHR '')''] \<and> list_all (\<lambda>c. \<not> is_bracket c) fs))
        \<and> CHR 0x0A \<notin> set children"
  proof cases
    case 1
    have "cmd = name @ [] @ CHR ''{'' # butlast body @ [CHR ''}'']"
      using cmd 1 b(1) body by simp
    then show ?thesis using nm b(4) by blast
  next
    case 2
    have "cmd = name @ (CHR ''('' # fs @ [CHR '')'']) @ CHR ''{'' # butlast body @ [CHR ''}'']"
      using cmd 2(1) b(1) body by simp
    then show ?thesis using nm b(4) 2(2) by blast
  qed
next
  assume "\<exists>name grp children.
        cmd = name @ grp @ CHR ''{'' # children @ [CHR ''}'']
        \<and> list_all is_name_char name
        \<and> (grp = [] \<or> (\<exists>fs. grp = CHR ''('' # fs @ [CHR '')''] \<and> list_all (\<lambda>c. \<not> is_bracket c) fs))
        \<and> CHR 0x0A \<notin> set children"
  then obtain name grp children where cmd: "cmd = name @ grp @ CHR ''{'' # children @ [CHR ''}'']"
    and nm: "list_all is_name_char name"
    and grp: "grp = [] \<or> (\<exists>fs. grp = CHR ''('' # fs @ [CHR '')''] \<and> list_all (\<lambda>c. \<not> is_bracket c) fs)"
    and nl: "CHR 0x0A \<notin> set children"
    by blast
  define r1 where "r1 = grp @ CHR ''{'' # children @ [CHR ''}'']"
  have hd: "r1 \<noteq> [] \<and> \<not> is_name_char (hd r1)"
    using grp by (auto simp: r1_def is_name_char_def)
  have nmem: "\<And>x. x \<in> set name \<Longrightarrow> is_name_char x" using nm by (simp add: list_all_iff)
  obtain c cs where r1c: "r1 = c # cs" "\<not> is_name_char c" using hd by (cases r1) auto
  have dw: "dropWhile is_name_char cmd = r1"
    using nmem r1c by (simp add: cmd r1_def[symmetric] dropWhile_append2)
  have tw: "takeWhile is_name_char cmd = name"
    using nmem r1c by (simp add: cmd r1_def[symmetric] takeWhile_append2)
  obtain fs where f: "cmdRegex_filters r1 = Some (fs, CHR ''{'' # children @ [CHR ''}''])"
  proof -
    from grp show ?thesis
    proof
      assume "grp = []"
      then have "cmdRegex_filters r1 = Some ([], CHR ''{'' # children @ [CHR ''}''])"
        unfolding cmdRegex_filters_Some_iff by (simp add: r1_def)
      then show ?thesis using that by blast
    next
      assume "\<exists>fs. grp = CHR ''('' # fs @ [CHR '')''] \<and> list_all (\<lambda>c. \<not> is_bracket c) fs"
      then obtain fs where "grp = CHR ''('' # fs @ [CHR '')'']" "list_all (\<lambda>c. \<not> is_bracket c) fs"
        by blast
      then have "cmdRegex_filters r1 = Some (fs, CHR ''{'' # children @ [CHR ''}''])"
        unfolding cmdRegex_filters_Some_iff by (simp add: r1_def)
      then show ?thesis using that by blast
    qed
  qed
  show "cmdRegex_FindStringSubmatch cmd \<noteq> []"
    using f nl by (simp add: cmdRegex_FindStringSubmatch_def dw)
qed

section \<open>Claims about projection and query compilation\<close>

text \<open>
  Claim C3 asks for a non-nil error when a selected key is missing from an object. The
  code does otherwise. When the first plain key of the request is missing, \<open>Keep\<close>
  returns the nil result together with the nil error. When the request has no plain key
  and the key of its first nested selection is missing, \<open>Keep\<close> is called on a nil
  pointer and panics.
\<close>

theorem Keep_missing_key_gives_no_error:
  "(snd (Value_Type L v) = TypeObject \<and> GetKeys K request = (stay # stays, conts)
      \<and> Object_Get (Value_o v) stay = None
    \<longrightarrow> Keep L K (Some v) request = Inr (INil, None))
   \<and> (snd (Value_Type L v) = TypeObject \<and> GetKeys K request = ([], cont # conts)
      \<and> splitBraces K cont \<noteq> []
      \<and> Object_Get (Value_o v) (takeWhile (\<lambda>c. c \<noteq> CHR '':'') cont) = None
    \<longrightarrow> Keep L K (Some v) request = Inl NilDereference)"
proof -
  obtain ob ar st nu ty where v: "v = Value ob ar st nu ty" by (cases v)
  have idx: "splitBraces K cont \<noteq> [] \<Longrightarrow> go_index (splitBraces K cont) 0 = Inr (splitBraces K cont ! 0)"
    by (simp add: go_index_def)
  show ?thesis
    unfolding v using idx by (auto simp: Let_def)
qed

theorem Keep_missing_key_gives_no_error_witness:
  "snd (Value_Type example_stdlib
          (Value [(''a'', Value [] [] ''1'' f64_zero typeRawNumber)] [] [] f64_zero TypeObject))
     = TypeObject
   \<and> Object_Get [(''a'', Value [] [] ''1'' f64_zero typeRawNumber)] ''b'' = None
   \<and> Keep example_stdlib
        \<lparr>GetKeys = (\<lambda>request. ([''b''], [])), splitBraces = (\<lambda>cont. []), Quote = (\<lambda>s. s)\<rparr>
        (Some (Value [(''a'', Value [] [] ''1'' f64_zero typeRawNumber)] [] [] f64_zero TypeObject))
        ''b''
     = Inr (INil, None)
   \<and> Keep example_stdlib
        \<lparr>GetKeys = (\<lambda>request. ([], [''b:{c}''])), splitBraces = (\<lambda>cont. [''c'']), Quote = (\<lambda>s. s)\<rparr>
        (Some (Value [(''a'', Value [] [] ''1'' f64_zero typeRawNumber)] [] [] f64_zero TypeObject))
        ''b:{c}''
     = Inl NilDereference"
proof -
  define v where "v = Value [(''a'', Value [] [] ''1'' f64_zero typeRawNumber)] [] [] f64_zero TypeObject"
  define K1 where "K1 = \<lparr>GetKeys = (\<lambda>request :: string. ([''b''], [] :: string list)),
      splitBraces = (\<lambda>cont :: string. [] :: string list), Quote = (\<lambda>s :: string. s)\<rparr>"
  define K2 where "K2 = \<lparr>GetKeys = (\<lambda>request :: string. ([] :: string list, [''b:{c}''])),
      splitBraces = (\<lambda>cont :: string. [''c'']), Quote = (\<lambda>s :: string. s)\<rparr>"
  note t1 = Keep_missing_key_gives_no_error [where L = example_stdlib and v = v and K = K1
      and request = "''b''" and stay = "''b''" and stays = "[]" and conts = "[]", THEN conjunct1]
  note t2 = Keep_missing_key_gives_no_error [where L = example_stdlib and v = v and K = K2
      and request = "''b:{c}''" and cont = "''b:{c}''" and conts = "[]", THEN conjunct2]
  have ty: "snd (Value_Type example_stdlib v) = TypeObject" by (simp add: v_def Value_Type_def)
  have miss: "Object_Get (Value_o v) ''b'' = None" by (simp add: v_def Object_Get_def)
  have h1: "snd (Value_Type example_stdlib v) = TypeObject \<and> GetKeys K1 ''b'' = ([''b''], [])
      \<and> Object_Get (Value_o v) ''b'' = None"
    using ty miss by (simp add: K1_def)
  have h2: "snd (Value_Type example_stdlib v) = TypeObject \<and> GetKeys K2 ''b:{c}'' = ([], [''b:{c}''])
      \<and> splitBraces K2 ''b:{c}'' \<noteq> []
      \<and> Object_Get (Value_o v) (takeWhile (\<lambda>c. c \<noteq> CHR '':'') ''b:{c}'') = None"
    using ty miss by (simp add: K2_def)
  note r1 = t1[THEN mp, OF h1]
  note r2 = t2[THEN mp, OF h2]
  from ty miss r1 r2 show ?thesis
    unfolding v_def K1_def K2_def by simp
qed

text \<open>
  The nil result with the nil error is no failure for the caller: an enclosing \<open>Keep\<close>
  stores it under the key and returns its map with the nil error.
\<close>

lemma Keep_missing_nested_key_is_stored_as_nil:
  "Keep example_stdlib
        \<lparr>GetKeys = (\<lambda>request. if request = ''b'' then ([''b''], []) else ([], [''p:{b}''])),
         splitBraces = (\<lambda>cont. [''b'']), Quote = (\<lambda>s. s)\<rparr>
        (Some (Value [(''p'', Value [(''a'', Value [] [] ''1'' f64_zero typeRawNumber)] [] []
                               f64_zero TypeObject)] [] [] f64_zero TypeObject))
        ''p:{b}''
     = Inr (IMap [(''p'', INil)], None)"
  by (simp add: Value_Type_def Object_Get_def go_index_def)

text \<open>
  Claim C2 asks for a non-nil error from \<open>ParseQuery\<close> when the query fails the outer
  shape. The code does otherwise. When \<open>cmdRegex\<close> does not match, \<open>parseQuery\<close> indexes
  the nil slice of submatches and panics, and whenever \<open>ParseQuery\<close> returns, the error
  it returns is nil.
\<close>

theorem ParseQuery_panics_on_bad_shape:
  "(cmdRegex_FindStringSubmatch cmd = [] \<longrightarrow>
      ParseQuery (Suc fuel) L Q cmd = Some (Inl IndexOutOfRange))
   \<and> (ParseQuery fuel' L Q cmd' = Some (Inr (parser, err)) \<longrightarrow> err = None)"
proof -
  have a: "cmdRegex_FindStringSubmatch cmd = [] \<longrightarrow>
      ParseQuery (Suc fuel) L Q cmd = Some (Inl IndexOutOfRange)"
    by (simp add: ParseQuery_def go_index_def)
  have b: "ParseQuery fuel' L Q cmd' = Some (Inr (parser, err)) \<longrightarrow> err = None"
  proof (cases fuel')
    case 0
    then show ?thesis by (simp add: ParseQuery_def)
  next
    case (Suc n)
    then show ?thesis
      by (auto simp: ParseQuery_def split: sum.splits option.splits if_splits)
  qed
  from a b show ?thesis by (intro conjI)
qed

theorem ParseQuery_panics_on_bad_shape_witness:
  "cmdRegex_FindStringSubmatch ''abc'' = []
   \<and> ParseQuery 1 example_stdlib
        \<lparr>filterRegex_FindAllStringSubmatch = (\<lambda>s. []), splitComa_beyond_ascii = (\<lambda>s. Inr [])\<rparr>
        ''abc'' = Some (Inl IndexOutOfRange)
   \<and> ParseQuery 1 example_stdlib
        \<lparr>filterRegex_FindAllStringSubmatch = (\<lambda>s. []), splitComa_beyond_ascii = (\<lambda>s. Inr [])\<rparr>
        ''a{b}'' = Some (Inr (Level [] [] [''b''], None))"
proof -
  define Q where "Q = \<lparr>filterRegex_FindAllStringSubmatch = (\<lambda>s :: string. [] :: string list list),
      splitComa_beyond_ascii = (\<lambda>s :: string. Inr [] :: panic + string list)\<rparr>"
  note t = ParseQuery_panics_on_bad_shape [where cmd = "''abc''" and fuel = 0 and L = example_stdlib
      and Q = Q and fuel' = 1 and cmd' = "''a{b}''" and parser = "Level [] [] [''b'']" and err = None]
  have h: "cmdRegex_FindStringSubmatch ''abc'' = []"
    by (simp add: cmdRegex_FindStringSubmatch_def cmdRegex_filters_def is_name_char_def)
  have m: "cmdRegex_FindStringSubmatch ''a{b}'' = [''a{b}'', ''a'', [], ''b'']"
    by (simp add: cmdRegex_FindStringSubmatch_def cmdRegex_filters_def is_name_char_def)
  have ok: "ParseQuery 1 example_stdlib Q ''a{b}'' = Some (Inr (Level [] [] [''b''], None))"
    by (simp add: ParseQuery_def m go_index_def splitComa_def ContainsAny_brackets_def
        is_bracket_def)
  note r = t[THEN conjunct1, THEN mp, OF h]
  from h r ok show ?thesis unfolding Q_def by simp
qed


end
